theory Spec2Isabelle
  imports Main "HOL-Library.Multiset"
begin

section \<open>Positions and ranges\<close>

text \<open>
  \<^verbatim>\<open>Position\<close> and \<^verbatim>\<open>Range\<close> of the language-server protocol: a position is a
  (line, character) pair of non-negative numbers, a range a start and an end position.
\<close>

datatype Position = Position (line: nat) (character: nat)

datatype Range = Range (range_start: Position) (range_end: Position)

text \<open>
  Modelled from the spec: \<^verbatim>\<open>text-util.ts\<close> is imported by \<^verbatim>\<open>STM.ts\<close> and is not among the
  sources. Section 4.1 gives \<^verbatim>\<open>positionIsBefore / After / Equal\<close> as the total ordering
  by (line, character).
\<close>

definition positionIsEqual :: "Position \<Rightarrow> Position \<Rightarrow> bool" where
  "positionIsEqual p q = (line p = line q \<and> character p = character q)"

definition positionIsAfter :: "Position \<Rightarrow> Position \<Rightarrow> bool" where
  "positionIsAfter p q = (line q < line p \<or> (line p = line q \<and> character q < character p))"

definition positionIsAfterOrEqual :: "Position \<Rightarrow> Position \<Rightarrow> bool" where
  "positionIsAfterOrEqual p q = (line q < line p \<or> (line p = line q \<and> character q \<le> character p))"

definition positionIsBefore :: "Position \<Rightarrow> Position \<Rightarrow> bool" where
  "positionIsBefore p q = (line p < line q \<or> (line p = line q \<and> character p < character q))"

definition positionIsBeforeOrEqual :: "Position \<Rightarrow> Position \<Rightarrow> bool" where
  "positionIsBeforeOrEqual p q = (line p < line q \<or> (line p = line q \<and> character p \<le> character q))"

text \<open>
  Modelled from the spec: \<^verbatim>\<open>positionAtRelative(anchor, text, offset)\<close> of \<^verbatim>\<open>text-util.ts\<close>,
  "the position reached after consuming offset characters of text from the anchor".
  A line feed moves to the start of the next line, any other character one column on;
  consuming stops at the end of the text.
\<close>

fun positionAtRelative :: "Position \<Rightarrow> string \<Rightarrow> nat \<Rightarrow> Position" where
  "positionAtRelative p [] n = p"
| "positionAtRelative p (c # cs) 0 = p"
| "positionAtRelative p (c # cs) (Suc n) =
     (if c = CHR 0x0A then positionAtRelative (Position (line p + 1) 0) cs n
      else positionAtRelative (Position (line p) (character p + 1)) cs n)"

section \<open>Sentences and the sentence tree\<close>

text \<open>
  Modelled from the spec: \<^verbatim>\<open>coqProto.SentenceStatus\<close> is declared in \<^verbatim>\<open>coq-proto.ts\<close>, which is
  not among the sources; section 3 lists the six statuses.
\<close>

datatype SentenceStatus = ProcessingInput | Processed | Incomplete | Complete | InProgress | Error

text \<open>
  Modelled from the spec: the class \<^verbatim>\<open>Sentence\<close> of \<^verbatim>\<open>STMSentence.ts\<close> is not among the
  sources. A sentence object has a state id, its command text, its document range and a
  status (section 3); the start timestamp is real time and is left out. Objects live in a
  store indexed by object references (natural numbers handed out in order of creation), so
  that the state-id index, \<^verbatim>\<open>focusedSentence\<close> and \<^verbatim>\<open>lastSentence\<close> can alias one object as
  they do in the program. The parent and children links of the live sentences are the
  shape of a tree of references.
\<close>

record Sentence =
  stateId :: nat
  commandText :: string
  textRange :: Range
  status :: SentenceStatus

datatype tree = Node (ref: nat) (children: "tree list")

text \<open>Pre-order listing of a tree: the node, then its children's subtrees in order.\<close>

fun preorder :: "tree \<Rightarrow> nat list" where
  "preorder (Node r ts) = r # concat (map preorder ts)"

text \<open>
  Modelled from the spec: \<^verbatim>\<open>descendants()\<close>, "iteration of descendants in order"
  (pre-order, section 4.3). The sentence itself is not one of its descendants:
  \<^verbatim>\<open>rewindTo\<close> deletes every descendant of the sentence it keeps.
\<close>

definition descendants :: "tree \<Rightarrow> nat list" where
  "descendants t = concat (map preorder (children t))"

fun first_some :: "'a option list \<Rightarrow> 'a option" where
  "first_some [] = None"
| "first_some (None # xs) = first_some xs"
| "first_some (Some x # xs) = Some x"

text \<open>The subtree hanging at the sentence with reference \<open>r\<close>, if it is live in the tree.\<close>

fun subtree :: "nat \<Rightarrow> tree \<Rightarrow> tree option" where
  "subtree r (Node x ts) = (if x = r then Some (Node x ts) else first_some (map (subtree r) ts))"

definition descendants_of :: "nat \<Rightarrow> tree \<Rightarrow> nat list" where
  "descendants_of r t = (case subtree r t of None \<Rightarrow> [] | Some u \<Rightarrow> descendants u)"

text \<open>
  Modelled from the spec: \<^verbatim>\<open>getParent()\<close>, the unique parent link; the root has none, and
  neither has a sentence that was removed from the tree ("destroyed", section 3).
\<close>

fun getParent :: "nat \<Rightarrow> tree \<Rightarrow> nat option" where
  "getParent r (Node x ts) =
     (if r \<in> set (map ref ts) then Some x else first_some (map (getParent r) ts))"

text \<open>
  Modelled from the spec: \<^verbatim>\<open>ancestors()\<close>, the "leaf-to-root walk starting from the last
  sentence" (section 4.3): the sentence, its parent, and so on up to the root. A sentence
  that is no longer in the tree yields only itself.
\<close>

fun path_to :: "nat \<Rightarrow> tree \<Rightarrow> nat list option" where
  "path_to r (Node x ts) =
     (if x = r then Some [x]
      else (case first_some (map (path_to r) ts) of
              None \<Rightarrow> None
            | Some p \<Rightarrow> Some (p @ [x])))"

definition ancestors :: "nat \<Rightarrow> tree \<Rightarrow> nat list" where
  "ancestors r t = (case path_to r t of None \<Rightarrow> [r] | Some p \<Rightarrow> p)"

text \<open>
  Modelled from the spec: the structural part of \<^verbatim>\<open>Sentence.add(parent, ...)\<close>,
  "appending a child" under the parent.
\<close>

fun add_child :: "nat \<Rightarrow> nat \<Rightarrow> tree \<Rightarrow> tree" where
  "add_child p n (Node x ts) =
     (if x = p then Node x (ts @ [Node n []]) else Node x (map (add_child p n) ts))"

text \<open>Modelled from the spec: \<^verbatim>\<open>truncate()\<close>, "removing all descendants".\<close>

fun truncate_tree :: "nat \<Rightarrow> tree \<Rightarrow> tree" where
  "truncate_tree r (Node x ts) = (if x = r then Node x [] else Node x (map (truncate_tree r) ts))"

text \<open>
  Modelled from the spec: \<^verbatim>\<open>descendantsUntil(end)\<close>, "iteration stopping at but not
  including end", and \<^verbatim>\<open>removeDescendentsUntil(end)\<close>, "extracting and yielding removed
  nodes, splicing the tree". The removed sentences are the descendants that come before
  \<^verbatim>\<open>end\<close>; an \<^verbatim>\<open>end\<close> that is undefined, or is not a descendant, is never reached. Splicing
  hands the children of a removed sentence to its nearest surviving ancestor, in place, so
  the survivors keep their order.
\<close>

definition descendantsUntil :: "nat \<Rightarrow> nat option \<Rightarrow> tree \<Rightarrow> nat list" where
  "descendantsUntil r e t = takeWhile (\<lambda>x. Some x \<noteq> e) (descendants_of r t)"

fun splice_tree :: "nat list \<Rightarrow> tree \<Rightarrow> tree list" where
  "splice_tree rs (Node x ts) =
     (if x \<in> set rs then concat (map (splice_tree rs) ts)
      else [Node x (concat (map (splice_tree rs) ts))])"

definition removeDescendentsUntil :: "nat \<Rightarrow> nat option \<Rightarrow> tree \<Rightarrow> nat list \<times> tree" where
  "removeDescendentsUntil r e t =
     (let removed = descendantsUntil r e t
      in (removed, (case splice_tree removed t of [u] \<Rightarrow> u | _ \<Rightarrow> t)))"

section \<open>The backend and the editor, as seen from the state machine\<close>

text \<open>
  Modelled from the spec: the transport \<^verbatim>\<open>coqtop.ts\<close> is not among the sources. Section 4.6
  and section 6 give the shapes of its answers: an add returns a new state id and
  optionally an unfocused state id, or fails with an optional state id, a message and a
  range of offsets into the submitted text; edit-at returns an optional new focus naming a
  qed state id, or fails the same way. A promise can also be rejected with a plain
  string, which \<^verbatim>\<open>addCommand\<close> tests for.
\<close>

record FailureResult =
  fail_stateId :: "nat option"
  fail_message :: string
  fail_start :: nat
  fail_stop :: nat

datatype AddResult = AddValue nat "nat option" | AddFailure FailureResult | AddRejected string

datatype EditAtResult = EditAtValue "nat option" | EditAtFailure FailureResult | EditAtRejected string

record Reply =
  add_reply :: AddResult
  editAt_reply :: EditAtResult
  reset_reply :: nat
  query_reply :: string

text \<open>
  Everything the state machine does to the outside is appended to a trace: the requests it
  sends to the backend and the editor callbacks of \<^verbatim>\<open>StateMachineCallbacks\<close> it invokes.
\<close>

datatype event =
    CoqAddCommand string int nat bool
  | CoqEditAt nat
  | ResetCoq
  | CoqQuit
  | CoqInterrupt
  | CoqQuery string "nat option"
  | CoqtopDispose
  | SentenceStatusUpdate Range SentenceStatus
  | ClearSentence Range
  | CoqDied string

text \<open>What the program throws.\<close>

datatype error =
    InconsistentState string
  | FailValue string Range
  | Failure FailureResult
  | Thrown string
  | TypeError

text \<open>
  \<^verbatim>\<open>toString()\<close> of a thrown value, as \<^verbatim>\<open>handleInconsistentState\<close> prints it: a string is
  itself, and an object without a \<^verbatim>\<open>toString\<close> of its own prints as \<^verbatim>\<open>[object Object]\<close>.
  A \<^verbatim>\<open>TypeError\<close> prints as its name, a colon and a message worded by the JavaScript
  engine; the source does not fix that message, so only the name is kept here, and the
  text passed to \<^verbatim>\<open>coqDied\<close> for a \<^verbatim>\<open>TypeError\<close> is the program's only up to the name. No
  statement below depends on it.
\<close>

fun toString :: "error \<Rightarrow> string" where
  "toString (Thrown str) = str"
| "toString TypeError = ''TypeError''"
| "toString (InconsistentState m) = ''[object Object]''"
| "toString (FailValue m r) = ''[object Object]''"
| "toString (Failure f) = ''[object Object]''"

text \<open>
  \<^verbatim>\<open>error.stateId\<close> of a caught value, when it is true for \<^verbatim>\<open>if(error.stateId)\<close>: only a
  failure of the backend has the field, and \<^verbatim>\<open>0\<close> counts as false.
\<close>

fun fallback_stateId :: "error \<Rightarrow> nat option" where
  "fallback_stateId (Failure f) =
     (case fail_stateId f of None \<Rightarrow> None | Some n \<Rightarrow> (if n = 0 then None else Some n))"
| "fallback_stateId e = None"

record BufferedFeedback =
  fb_stateId :: nat
  fb_status :: SentenceStatus
  fb_worker :: string

record Command =
  cmd_text :: string
  cmd_range :: Range

record TextDocumentContentChangeEvent =
  change_range :: Range
  change_text :: string

section \<open>The state of \<^verbatim>\<open>CoqStateMachine\<close>\<close>

text \<open>
  The fields of the class, with \<^verbatim>\<open>null\<close> and \<^verbatim>\<open>undefined\<close> as \<open>None\<close> (the program compares
  them with \<^verbatim>\<open>==\<close> and tests them for truth, which does not tell them apart).
  \<^verbatim>\<open>root\<close> holds the tree of live sentences, \<^verbatim>\<open>store\<close> the sentence objects.
  \<^verbatim>\<open>callbacks\<close> says whether the field still holds the editor's callbacks (\<^verbatim>\<open>dispose\<close> sets
  it to \<^verbatim>\<open>undefined\<close>). The console is left out: it only logs, and the program touches it
  only while \<^verbatim>\<open>running\<close> is true, when it is defined.
  Modelled from the spec: \<^verbatim>\<open>coqtop_isRunning\<close> stands for \<^verbatim>\<open>coqtop.isRunning()\<close>, which holds
  once the backend has been reset; \<^verbatim>\<open>coqtop_replies\<close> gives the backend's answer to the n-th
  request, and \<^verbatim>\<open>coqtop_sent\<close> counts the requests awaited so far.
\<close>

record STM =
  version :: int
  root :: "tree option"
  sentences :: "(nat \<rightharpoonup> nat) option"
  focusedSentence :: "nat option"
  lastSentence :: "nat option"
  bufferedFeedback :: "BufferedFeedback list option"
  running :: bool
  callbacks :: bool
  store :: "nat \<Rightarrow> Sentence"
  next_ref :: nat
  coqtop_isRunning :: bool
  coqtop_replies :: "nat \<Rightarrow> Reply"
  coqtop_sent :: nat
  trace :: "event list"

text \<open>
  The state the constructor leaves, talking to a backend that answers as \<open>replies\<close>. No
  sentence object exists yet: the store holds a placeholder at every reference.
\<close>

definition no_sentence :: Sentence where
  "no_sentence = \<lparr> stateId = 0, commandText = [], textRange = Range (Position 0 0) (Position 0 0),
                    status = ProcessingInput \<rparr>"

definition new_STM :: "(nat \<Rightarrow> Reply) \<Rightarrow> STM" where
  "new_STM replies =
     \<lparr> version = 0, root = None, sentences = None, focusedSentence = None,
       lastSentence = None, bufferedFeedback = Some [], running = True, callbacks = True,
       store = (\<lambda>_. no_sentence),
       next_ref = 0, coqtop_isRunning = False, coqtop_replies = replies, coqtop_sent = 0,
       trace = [] \<rparr>"

definition emit :: "event \<Rightarrow> STM \<Rightarrow> STM" where
  "emit e s = s\<lparr> trace := trace s @ [e] \<rparr>"

text \<open>Awaiting a request: it is sent, and the backend's next answer is read.\<close>

definition await :: "event \<Rightarrow> STM \<Rightarrow> Reply \<times> STM" where
  "await e s = (coqtop_replies s (coqtop_sent s), (emit e s)\<lparr> coqtop_sent := coqtop_sent s + 1 \<rparr>)"

text \<open>
  Invoking a callback of \<^verbatim>\<open>this.callbacks\<close>: a \<^verbatim>\<open>TypeError\<close> once the field is undefined.
\<close>

definition callback :: "event \<Rightarrow> STM \<Rightarrow> error + STM" where
  "callback e s = (if callbacks s then Inr (emit e s) else Inl TypeError)"

text \<open>JavaScript truth of an optional number: \<^verbatim>\<open>undefined\<close> and \<^verbatim>\<open>0\<close> are false.\<close>

fun truthy :: "nat option \<Rightarrow> bool" where
  "truthy None = False"
| "truthy (Some n) = (n \<noteq> 0)"

section \<open>Lifecycle\<close>

text \<open>
  \<^verbatim>\<open>dispose\<close> clears the running flag, the state-id index, the feedback buffer, the focus
  and the callbacks, and disposes of the transport, which the trace records. The console
  is left out of the state: its messages have no effect on the state machine.
\<close>

definition dispose :: "STM \<Rightarrow> STM" where
  "dispose s =
     emit CoqtopDispose
       (s\<lparr> running := False, sentences := None, bufferedFeedback := None,
           focusedSentence := None, callbacks := False \<rparr>)"

definition shutdown :: "STM \<Rightarrow> STM" where
  "shutdown s = (if \<not> running s then s else dispose (snd (await CoqQuit s)))"

definition interrupt :: "STM \<Rightarrow> STM" where
  "interrupt s = snd (await CoqInterrupt s)"

definition isRunning :: "STM \<Rightarrow> bool" where
  "isRunning s = running s"

definition getFocusedPosition :: "STM \<Rightarrow> Position" where
  "getFocusedPosition s =
     (case focusedSentence s of
        None \<Rightarrow> Position 0 0
      | Some r \<Rightarrow> range_end (textRange (store s r)))"

text \<open>
  Modelled from the spec: \<^verbatim>\<open>Sentence.newRoot(stateId)\<close> creates the root sentence "with no
  text and zero range"; a sentence is \<^verbatim>\<open>ProcessingInput\<close> on creation.
\<close>

definition newRoot :: "nat \<Rightarrow> Sentence" where
  "newRoot sid = \<lparr> stateId = sid, commandText = [], textRange = Range (Position 0 0) (Position 0 0),
                   status = ProcessingInput \<rparr>"

definition initialize :: "nat \<Rightarrow> STM \<Rightarrow> (error + unit) \<times> STM" where
  "initialize rootStateId s =
     (if root s \<noteq> None then (Inl (Thrown ''STM is already initialized.''), s)
      else if \<not> running s
        then (Inl (Thrown ''Cannot reinitialize the STM once it has died; create a new one.''), s)
      else (let r = next_ref s in
        (Inr (), s\<lparr> store := (store s)(r := newRoot rootStateId),
                    next_ref := Suc r,
                    root := Some (Node r []),
                    sentences := Some [rootStateId \<mapsto> r],
                    focusedSentence := Some r,
                    lastSentence := Some r \<rparr>)))"

definition validateState :: "bool \<Rightarrow> STM \<Rightarrow> (error + bool) \<times> STM" where
  "validateState init s =
     (if \<not> running s \<and> init
        then (Inl (Thrown ''Cannot perform operation: coq STM manager has been shut down.''), s)
      else if \<not> running s then (Inr False, s)
      else if coqtop_isRunning s then (Inr True, s)
      else if init then
        (case await ResetCoq s of (rep, s1) \<Rightarrow>
           (case initialize (reset_reply rep) (s1\<lparr> coqtop_isRunning := True \<rparr>) of
              (Inl e, s2) \<Rightarrow> (Inl e, s2)
            | (Inr u, s2) \<Rightarrow> (Inr True, s2)))
      else (Inr False, s))"

definition handleInconsistentState :: "error \<Rightarrow> STM \<Rightarrow> (error + unit) \<times> STM" where
  "handleInconsistentState err s =
     (case callback (CoqDied (''Inconsistent state: '' @ toString err)) s of
        Inl e \<Rightarrow> (Inl e, s)
      | Inr s1 \<Rightarrow> (Inr (), dispose s1))"

definition throwInconsistentState :: "string \<Rightarrow> STM \<Rightarrow> error \<times> STM" where
  "throwInconsistentState msg s =
     (case callback (CoqDied (''Inconsistent state: '' @ msg)) s of
        Inl e \<Rightarrow> (e, s)
      | Inr s1 \<Rightarrow> (InconsistentState msg, dispose s1))"

section \<open>Rewinding\<close>

definition deleteSentence :: "nat \<Rightarrow> STM \<Rightarrow> (error + unit) \<times> STM" where
  "deleteSentence sent s =
     (case callback (ClearSentence (textRange (store s sent))) s of
        Inl e \<Rightarrow> (Inl e, s)
      | Inr s1 \<Rightarrow>
          (case sentences s1 of
             None \<Rightarrow> (Inl TypeError, s1)
           | Some m \<Rightarrow> (Inr (), s1\<lparr> sentences := Some (m(stateId (store s1 sent) := None)) \<rparr>)))"

text \<open>The loop \<^verbatim>\<open>for(let sent of ...) this.deleteSentence(sent)\<close>; a throw ends it.\<close>

fun deleteSentences :: "nat list \<Rightarrow> STM \<Rightarrow> (error + unit) \<times> STM" where
  "deleteSentences [] s = (Inr (), s)"
| "deleteSentences (sent # sents) s =
     (case deleteSentence sent s of
        (Inl e, s1) \<Rightarrow> (Inl e, s1)
      | (Inr u, s1) \<Rightarrow> deleteSentences sents s1)"

definition sentence_descendants :: "nat \<Rightarrow> STM \<Rightarrow> nat list" where
  "sentence_descendants r s = (case root s of None \<Rightarrow> [] | Some t \<Rightarrow> descendants_of r t)"

definition sentence_parent :: "nat \<Rightarrow> STM \<Rightarrow> nat option" where
  "sentence_parent r s = (case root s of None \<Rightarrow> None | Some t \<Rightarrow> getParent r t)"

definition sentence_ancestors :: "nat \<Rightarrow> STM \<Rightarrow> nat list" where
  "sentence_ancestors r s = (case root s of None \<Rightarrow> [r] | Some t \<Rightarrow> ancestors r t)"

text \<open>The members of the tree: the live sentences.\<close>

definition live :: "STM \<Rightarrow> nat set" where
  "live s = (case root s of None \<Rightarrow> {} | Some t \<Rightarrow> set (preorder t))"

definition rewindTo :: "nat option \<Rightarrow> STM \<Rightarrow> (error + unit) \<times> STM" where
  "rewindTo newLast s =
     (case newLast of
        None \<Rightarrow> (Inl TypeError, s)
      | Some r \<Rightarrow>
          (case deleteSentences (sentence_descendants r s) s of
             (Inl e, s1) \<Rightarrow> (Inl e, s1)
           | (Inr u, s1) \<Rightarrow>
               (Inr (), s1\<lparr> root := map_option (truncate_tree r) (root s1),
                              lastSentence := Some r,
                              focusedSentence := Some r \<rparr>)))"

definition rewindRange :: "nat \<Rightarrow> nat option \<Rightarrow> STM \<Rightarrow> (error + unit) \<times> STM" where
  "rewindRange start e s =
     (case root s of
        None \<Rightarrow> (Inr (), s)
      | Some t \<Rightarrow>
          (case removeDescendentsUntil start e t of
             (removed, t') \<Rightarrow> deleteSentences removed (s\<lparr> root := Some t' \<rparr>)))"

definition gotoErrorFallbackState_try :: "nat \<Rightarrow> STM \<Rightarrow> (error + unit) \<times> STM" where
  "gotoErrorFallbackState_try sid s =
     (case sentences s of
        None \<Rightarrow> (Inl TypeError, s)
      | Some m \<Rightarrow>
          (case await (CoqEditAt sid) s of (rep, s1) \<Rightarrow>
             (case editAt_reply rep of
                EditAtFailure f \<Rightarrow> (Inl (Failure f), s1)
              | EditAtRejected str \<Rightarrow> (Inl (Thrown str), s1)
              | EditAtValue newFocus \<Rightarrow> rewindTo (m sid) s1)))"

definition gotoErrorFallbackState :: "nat \<Rightarrow> STM \<Rightarrow> (error + unit) \<times> STM" where
  "gotoErrorFallbackState sid s =
     (case gotoErrorFallbackState_try sid s of
        (Inl err, s1) \<Rightarrow> handleInconsistentState err s1
      | (Inr u, s1) \<Rightarrow> (Inr (), s1))"

section \<open>Focus and edit-at\<close>

definition focusSentence_try :: "nat option \<Rightarrow> STM \<Rightarrow> (error + unit) \<times> STM" where
  "focusSentence_try sentence s =
     (case sentence of
        None \<Rightarrow> (Inl TypeError, s)
      | Some r \<Rightarrow>
          (case await (CoqEditAt (stateId (store s r))) s of (rep, s1) \<Rightarrow>
             (case editAt_reply rep of
                EditAtFailure f \<Rightarrow> (Inl (Failure f), s1)
              | EditAtRejected str \<Rightarrow> (Inl (Thrown str), s1)
              | EditAtValue newFocus \<Rightarrow>
                  (case (case newFocus of
                           Some endStateId \<Rightarrow>
                             (case sentences s1 of
                                None \<Rightarrow> (Inl TypeError, s1)
                              | Some m \<Rightarrow> rewindRange r (m endStateId) s1)
                         | None \<Rightarrow> rewindTo (Some r) s1) of
                     (Inl e, s2) \<Rightarrow> (Inl e, s2)
                   | (Inr u, s2) \<Rightarrow> (Inr (), s2\<lparr> focusedSentence := Some r \<rparr>)))))"

definition focusSentence :: "nat option \<Rightarrow> STM \<Rightarrow> (error + unit) \<times> STM" where
  "focusSentence sentence s =
     (if sentence = focusedSentence s then (Inr (), s)
      else (case focusSentence_try sentence s of
              (Inr u, s1) \<Rightarrow> (Inr (), s1)
            | (Inl err, s1) \<Rightarrow>
                (case fallback_stateId err of
                   Some sid \<Rightarrow> gotoErrorFallbackState sid s1
                 | None \<Rightarrow> (Inr (), s1))))"

definition cancelSentence :: "nat option \<Rightarrow> STM \<Rightarrow> (error + unit) \<times> STM" where
  "cancelSentence sentence s =
     (case sentence of
        None \<Rightarrow> (Inl TypeError, s)
      | Some r \<Rightarrow> focusSentence (sentence_parent r s) s)"

definition stepBackward :: "STM \<Rightarrow> (error + unit) \<times> STM" where
  "stepBackward s =
     (case validateState True s of
        (Inl e, s1) \<Rightarrow> (Inl e, s1)
      | (Inr b, s1) \<Rightarrow> cancelSentence (focusedSentence s1) s1)"

section \<open>Feedback\<close>

text \<open>
  Modelled from the spec: \<^verbatim>\<open>updateStatus(s)\<close> of \<^verbatim>\<open>Sentence\<close>, after the status lifecycle of
  section 4.2: a sentence "transitions to any status the backend reports", and "Error is
  terminal within a sentence". \<open>transition\<close> is the step on the sentence object: it takes
  the new status unless the sentence is in \<^verbatim>\<open>Error\<close>, which it keeps.
\<close>

definition transition :: "SentenceStatus \<Rightarrow> Sentence \<Rightarrow> Sentence" where
  "transition st sent = (if status sent = Error then sent else sent\<lparr> status := st \<rparr>)"

definition updateStatus :: "nat \<Rightarrow> SentenceStatus \<Rightarrow> STM \<Rightarrow> STM" where
  "updateStatus r st s = s\<lparr> store := (store s)(r := transition st (store s r)) \<rparr>"

fun applyFeedback :: "BufferedFeedback list \<Rightarrow> STM \<Rightarrow> (error + unit) \<times> STM" where
  "applyFeedback [] s = (Inr (), s)"
| "applyFeedback (feedback # rest) s =
     (case sentences s of
        None \<Rightarrow> (Inl TypeError, s)
      | Some m \<Rightarrow>
          (case m (fb_stateId feedback) of
             None \<Rightarrow> applyFeedback rest s
           | Some sent \<Rightarrow>
               (let s1 = updateStatus sent (fb_status feedback) s in
                (case callback (SentenceStatusUpdate (textRange (store s1 sent)) (status (store s1 sent))) s1 of
                   Inl e \<Rightarrow> (Inl e, s1)
                 | Inr s2 \<Rightarrow> applyFeedback rest s2))))"

definition applyBufferedFeedback :: "STM \<Rightarrow> (error + unit) \<times> STM" where
  "applyBufferedFeedback s =
     (case bufferedFeedback s of
        None \<Rightarrow> (Inl TypeError, s)
      | Some buffered \<Rightarrow>
          (case applyFeedback buffered s of
             (Inl e, s1) \<Rightarrow> (Inl e, s1)
           | (Inr u, s1) \<Rightarrow> (Inr (), s1\<lparr> bufferedFeedback := Some [] \<rparr>)))"

definition onCoqStateStatusUpdate ::
  "nat \<Rightarrow> nat \<Rightarrow> SentenceStatus \<Rightarrow> string \<Rightarrow> STM \<Rightarrow> (error + unit) \<times> STM" where
  "onCoqStateStatusUpdate sid route st worker s =
     (case sentences s of
        None \<Rightarrow> (Inl TypeError, s)
      | Some m \<Rightarrow>
          (case m sid of
             Some sent \<Rightarrow>
               (let s1 = updateStatus sent st s in
                (case callback (SentenceStatusUpdate (textRange (store s1 sent)) (status (store s1 sent))) s1 of
                   Inl e \<Rightarrow> (Inl e, s1)
                 | Inr s2 \<Rightarrow> (Inr (), s2)))
           | None \<Rightarrow>
               (case bufferedFeedback s of
                  None \<Rightarrow> (Inl TypeError, s)
                | Some buffered \<Rightarrow>
                    (Inr (), s\<lparr> bufferedFeedback :=
                       Some (buffered @ [\<lparr> fb_stateId = sid, fb_status = st, fb_worker = worker \<rparr>]) \<rparr>))))"

text \<open>\<^verbatim>\<open>!error\<close> for the optional string of \<^verbatim>\<open>onCoqClosed\<close>: absent and empty are false.\<close>

fun truthy_string :: "string option \<Rightarrow> bool" where
  "truthy_string None = False"
| "truthy_string (Some str) = (str \<noteq> [])"

definition onCoqClosed :: "string option \<Rightarrow> STM \<Rightarrow> (error + unit) \<times> STM" where
  "onCoqClosed err s =
     (if \<not> truthy_string err \<or> \<not> running s then (Inr (), s)
      else (let s1 = dispose s in
            (case callback (CoqDied (case err of None \<Rightarrow> [] | Some str \<Rightarrow> str)) s1 of
               Inl e \<Rightarrow> (Inl e, s1)
             | Inr s2 \<Rightarrow> (Inr (), s2))))"

section \<open>Adding a command\<close>

text \<open>
  Modelled from the spec: \<^verbatim>\<open>Sentence.add(parent, text, state_id, range, start_time)\<close> creates
  a sentence object and appends it as a child of the parent; the result is the reference
  of the new object.
\<close>

definition Sentence_add :: "nat \<Rightarrow> string \<Rightarrow> nat \<Rightarrow> Range \<Rightarrow> STM \<Rightarrow> nat \<times> STM" where
  "Sentence_add parent txt sid rng s =
     (let r = next_ref s in
      (r, s\<lparr> store := (store s)(r := \<lparr> stateId = sid, commandText = txt, textRange = rng,
                                        status = ProcessingInput \<rparr>),
             next_ref := Suc r,
             root := map_option (add_child parent r) (root s) \<rparr>))"

text \<open>
  The body of the \<^verbatim>\<open>try\<close> block of \<^verbatim>\<open>addCommand\<close>, in two parts: \<^verbatim>\<open>addCommand_value\<close> is
  what follows the backend's answer \<^verbatim>\<open>value\<close> to the add request.
\<close>

definition addCommand_value ::
  "nat \<Rightarrow> Command \<Rightarrow> nat \<Rightarrow> nat option \<Rightarrow> STM \<Rightarrow> (error + nat \<times> bool) \<times> STM" where
  "addCommand_value parent command newStateId unfocusedStateId s1 =
     (case Sentence_add parent (cmd_text command) newStateId (cmd_range command) s1 of
        (newSentence, s2) \<Rightarrow>
          (case sentences s2 of
             None \<Rightarrow> (Inl TypeError, s2)
           | Some m \<Rightarrow>
               (case applyBufferedFeedback
                       (s2\<lparr> sentences := Some (m(stateId (store s2 newSentence) \<mapsto> newSentence)) \<rparr>) of
                  (Inl e, s3) \<Rightarrow> (Inl e, s3)
                | (Inr u, s3) \<Rightarrow>
                    (let s4 = updateStatus newSentence ProcessingInput s3 in
                     (case lastSentence s4 of
                        None \<Rightarrow> (Inl TypeError, s4)
                      | Some l \<Rightarrow>
                          (let s5 = (if positionIsAfterOrEqual
                                          (range_start (textRange (store s4 newSentence)))
                                          (range_end (textRange (store s4 l)))
                                     then s4\<lparr> lastSentence := Some newSentence \<rparr> else s4)
                           in (if truthy unfocusedStateId
                               then (case sentences s5 of
                                       None \<Rightarrow> (Inl TypeError, s5)
                                     | Some m' \<Rightarrow>
                                         (case unfocusedStateId of
                                            None \<Rightarrow> (Inl TypeError, s5)
                                          | Some u' \<Rightarrow>
                                              (Inr (newSentence, True),
                                               s5\<lparr> focusedSentence := m' u' \<rparr>)))
                               else (Inr (newSentence, unfocusedStateId \<noteq> None),
                                     s5\<lparr> focusedSentence := Some newSentence \<rparr>))))))))"

definition addCommand_try :: "Command \<Rightarrow> bool \<Rightarrow> STM \<Rightarrow> (error + nat \<times> bool) \<times> STM" where
  "addCommand_try command verbose s =
     (case focusedSentence s of
        None \<Rightarrow> (Inl TypeError, s)
      | Some parent \<Rightarrow>
          (if \<not> positionIsEqual (range_end (textRange (store s parent))) (range_start (cmd_range command))
           then (case throwInconsistentState ''Can only add a comand to the current focus'' s of
                   (e, s1) \<Rightarrow> (Inl e, s1))
           else
            (case await (CoqAddCommand (cmd_text command) (version s) (stateId (store s parent)) verbose) s of
               (rep, s1) \<Rightarrow>
                 (case add_reply rep of
                    AddFailure f \<Rightarrow> (Inl (Failure f), s1)
                  | AddRejected str \<Rightarrow> (Inl (Thrown str), s1)
                  | AddValue newStateId unfocusedStateId \<Rightarrow>
                      addCommand_value parent command newStateId unfocusedStateId s1))))"

text \<open>
  \<^verbatim>\<open>addCommand\<close> with its \<^verbatim>\<open>catch\<close>: an \<^verbatim>\<open>InconsistentState\<close> is thrown on, a string becomes
  one, and everything else is read as a failure of the backend. A \<^verbatim>\<open>TypeError\<close> caught
  here has no \<^verbatim>\<open>range\<close>, so reading \<^verbatim>\<open>error.range.start\<close> throws a \<^verbatim>\<open>TypeError\<close> again; a
  \<^verbatim>\<open>FailValue\<close> is never thrown inside the block.
\<close>

definition addCommand :: "Command \<Rightarrow> bool \<Rightarrow> STM \<Rightarrow> (error + nat \<times> bool) \<times> STM" where
  "addCommand command verbose s =
     (case addCommand_try command verbose s of
        (Inr result, s1) \<Rightarrow> (Inr result, s1)
      | (Inl err, s1) \<Rightarrow>
          (case err of
             InconsistentState m \<Rightarrow> (Inl err, s1)
           | Thrown str \<Rightarrow> (Inl (InconsistentState str), s1)
           | TypeError \<Rightarrow> (Inl TypeError, s1)
           | FailValue m r \<Rightarrow> (Inl TypeError, s1)
           | Failure f \<Rightarrow>
               (case (case fallback_stateId err of
                        Some sid \<Rightarrow> gotoErrorFallbackState sid s1
                      | None \<Rightarrow> (Inr (), s1)) of
                  (Inl e, s2) \<Rightarrow> (Inl e, s2)
                | (Inr u, s2) \<Rightarrow>
                    (Inl (FailValue (fail_message f)
                           (Range (positionAtRelative (range_start (cmd_range command)) (cmd_text command) (fail_start f))
                                  (positionAtRelative (range_start (cmd_range command)) (cmd_text command) (fail_stop f)))),
                     s2))))"

section \<open>Stepping and interpreting to a point\<close>

text \<open>
  The loop of \<^verbatim>\<open>iterateAdvanceFocus\<close>. The parser is the function \<open>commandSequence\<close>, whose
  finite sequences are lists; \<open>it\<close> is what the current iterator has still to yield and
  \<open>nextCommand\<close> what it yielded last (\<open>None\<close> when done). A fresh iterator after an
  unfocusing add can restart the walk, so the loop runs on fuel: \<open>None\<close> is a loop that
  has not finished within it.
\<close>

fun iterate ::
  "nat \<Rightarrow> (Command \<Rightarrow> bool \<Rightarrow> bool) \<Rightarrow> (Position \<Rightarrow> Position option \<Rightarrow> Command list) \<Rightarrow> bool \<Rightarrow>
   Position option \<Rightarrow> bool \<Rightarrow> Command list \<Rightarrow> Command option \<Rightarrow> STM \<Rightarrow> ((error + unit) \<times> STM) option" where
  "iterate 0 iterateCondition commandSequence verbose endp contiguousFocus it nextCommand s = None"
| "iterate (Suc fuel) iterateCondition commandSequence verbose endp contiguousFocus it None s =
     Some (Inr (), s)"
| "iterate (Suc fuel) iterateCondition commandSequence verbose endp contiguousFocus it (Some command) s =
     (if \<not> iterateCondition command contiguousFocus then Some (Inr (), s)
      else (case addCommand command verbose s of
              (Inl e, s1) \<Rightarrow> Some (Inl e, s1)
            | (Inr (sentence, unfocused), s1) \<Rightarrow>
                iterate fuel iterateCondition commandSequence verbose endp (\<not> unfocused)
                  (if unfocused then commandSequence (getFocusedPosition s1) endp else tl it)
                  (case it of [] \<Rightarrow> None | c # cs \<Rightarrow> Some c) s1))"

definition iterateAdvanceFocus ::
  "nat \<Rightarrow> (Command \<Rightarrow> bool \<Rightarrow> bool) \<Rightarrow> (Position \<Rightarrow> Position option \<Rightarrow> Command list) \<Rightarrow> bool \<Rightarrow>
   Position option \<Rightarrow> STM \<Rightarrow> ((error + unit) \<times> STM) option" where
  "iterateAdvanceFocus fuel iterateCondition commandSequence verbose endp s =
     (let cmds = commandSequence (getFocusedPosition s) endp in
      iterate fuel iterateCondition commandSequence verbose endp True (tl cmds)
        (case cmds of [] \<Rightarrow> None | c # cs \<Rightarrow> Some c) s)"

definition stepForward ::
  "nat \<Rightarrow> (Position \<Rightarrow> Position option \<Rightarrow> Command list) \<Rightarrow> bool \<Rightarrow> STM \<Rightarrow> ((error + unit) \<times> STM) option" where
  "stepForward fuel commandSequence verbose s =
     (case validateState True s of
        (Inl e, s1) \<Rightarrow> Some (Inl e, s1)
      | (Inr b, s1) \<Rightarrow>
          (let currentFocus = getFocusedPosition s1 in
           iterateAdvanceFocus fuel
             (\<lambda>command contiguousFocus. positionIsEqual (range_start (cmd_range command)) currentFocus)
             commandSequence verbose None s1))"

text \<open>
  Modelled from the spec: \<^verbatim>\<open>isBefore(pos)\<close> of \<^verbatim>\<open>Sentence\<close>: the sentence ends at or before
  the position (\<^verbatim>\<open>interpret_to_point\<close> moves the focus back to "the nearest sentence whose
  range ends at or before pos").
\<close>

definition isBefore :: "Sentence \<Rightarrow> Position \<Rightarrow> bool" where
  "isBefore sent pos = positionIsBeforeOrEqual (range_end (textRange sent)) pos"

definition getParentSentence :: "Position \<Rightarrow> STM \<Rightarrow> error + nat option" where
  "getParentSentence pos s =
     (case root s of
        None \<Rightarrow> Inl TypeError
      | Some t \<Rightarrow>
          (case List.find (\<lambda>r. \<not> isBefore (store s r) pos) (descendants t) of
             Some r \<Rightarrow> Inr (getParent r t)
           | None \<Rightarrow> Inr (Some (ref t))))"

definition interpretToPoint ::
  "nat \<Rightarrow> Position \<Rightarrow> (Position \<Rightarrow> Position option \<Rightarrow> Command list) \<Rightarrow> STM \<Rightarrow> ((error + unit) \<times> STM) option" where
  "interpretToPoint fuel pos commandSequence s =
     (case validateState True s of
        (Inl e, s1) \<Rightarrow> Some (Inl e, s1)
      | (Inr b, s1) \<Rightarrow>
          (case iterateAdvanceFocus fuel
                  (\<lambda>command contiguousFocus. positionIsAfterOrEqual pos (range_end (cmd_range command)))
                  commandSequence True (Some pos) s1 of
             None \<Rightarrow> None
           | Some (Inl e, s2) \<Rightarrow> Some (Inl e, s2)
           | Some (Inr u, s2) \<Rightarrow>
               (if positionIsBefore pos (getFocusedPosition s2)
                then (case getParentSentence pos s2 of
                        Inl e \<Rightarrow> Some (Inl e, s2)
                      | Inr target \<Rightarrow> Some (focusSentence target s2))
                else Some (Inr (), s2))))"

definition doQuery :: "string \<Rightarrow> Position option \<Rightarrow> STM \<Rightarrow> (error + string) \<times> STM" where
  "doQuery query pos s =
     (case validateState True s of
        (Inl e, s1) \<Rightarrow> (Inl e, s1)
      | (Inr b, s1) \<Rightarrow>
          (case (case pos of
                   None \<Rightarrow> Inr None
                 | Some p \<Rightarrow>
                     (case getParentSentence p s1 of
                        Inl e \<Rightarrow> Inl e
                      | Inr None \<Rightarrow> Inl TypeError
                      | Inr (Some r) \<Rightarrow> Inr (Some (stateId (store s1 r))))) of
             Inl e \<Rightarrow> (Inl e, s1)
           | Inr state \<Rightarrow>
               (case await (CoqQuery query state) s1 of
                  (rep, s2) \<Rightarrow> (Inr (query_reply rep), s2))))"


section \<open>Reconciling document edits\<close>

text \<open>
  \<^verbatim>\<open>changes.sort(...)\<close> with the comparator of \<^verbatim>\<open>applyChanges\<close>, which puts \<^verbatim>\<open>change1\<close> first
  exactly when its start is after the start of \<^verbatim>\<open>change2\<close> and never answers that two
  changes are equal. The engine's sort is modelled as a stable insertion sort: each
  change, taken in the order of the array, goes in front of the first change it starts
  after, so it comes behind the changes that start after it and behind the earlier changes
  with the same start, which keep the order they had in the array.
\<close>

fun insertChange ::
  "TextDocumentContentChangeEvent \<Rightarrow> TextDocumentContentChangeEvent list \<Rightarrow> TextDocumentContentChangeEvent list" where
  "insertChange c [] = [c]"
| "insertChange c (d # ds) =
     (if positionIsAfter (range_start (change_range c)) (range_start (change_range d))
      then c # d # ds else d # insertChange c ds)"

definition sortChanges :: "TextDocumentContentChangeEvent list \<Rightarrow> TextDocumentContentChangeEvent list" where
  "sortChanges changes = foldl (\<lambda>sorted c. insertChange c sorted) [] changes"

text \<open>
  The body of the loop over \<^verbatim>\<open>this.lastSentence.ancestors()\<close>, in its three steps.
  \<^verbatim>\<open>remainingChanges\<close> is the inner \<^verbatim>\<open>while\<close> loop, which shifts changes off the front of
  the array as long as the first one starts at or after the end of the sentence.
  \<^verbatim>\<open>applyTextChanges\<close> of \<^verbatim>\<open>Sentence\<close> is not among the sources and is a parameter: from
  the remaining changes and the sentence object it gives the invalidated flag and the
  adjusted range of the sentence. \<^verbatim>\<open>visit\<close> applies it and cancels an invalidated sentence.
  The sentences walked are those the iterator meets from the last sentence as the walk
  begins.
\<close>

definition remainingChanges ::
  "nat \<Rightarrow> TextDocumentContentChangeEvent list \<Rightarrow> STM \<Rightarrow> TextDocumentContentChangeEvent list" where
  "remainingChanges sent sortedChanges s =
     dropWhile (\<lambda>c. positionIsAfterOrEqual (range_start (change_range c))
                       (range_end (textRange (store s sent)))) sortedChanges"

definition visit ::
  "(TextDocumentContentChangeEvent list \<Rightarrow> Sentence \<Rightarrow> bool \<times> Range) \<Rightarrow>
   TextDocumentContentChangeEvent list \<Rightarrow> nat \<Rightarrow> STM \<Rightarrow> (error + unit) \<times> STM" where
  "visit applyTextChanges remaining sent s =
     (case applyTextChanges remaining (store s sent) of
        (invalidated, rng) \<Rightarrow>
          (let s1 = s\<lparr> store := (store s)(sent := (store s sent)\<lparr> textRange := rng \<rparr>) \<rparr> in
           if invalidated then cancelSentence (Some sent) s1 else (Inr (), s1)))"

fun walk ::
  "(TextDocumentContentChangeEvent list \<Rightarrow> Sentence \<Rightarrow> bool \<times> Range) \<Rightarrow>
   TextDocumentContentChangeEvent list \<Rightarrow> nat list \<Rightarrow> STM \<Rightarrow> (error + unit) \<times> STM" where
  "walk applyTextChanges sortedChanges [] s = (Inr (), s)"
| "walk applyTextChanges sortedChanges (sent # sents) s =
     (if remainingChanges sent sortedChanges s = [] then (Inr (), s)
      else (case visit applyTextChanges (remainingChanges sent sortedChanges s) sent s of
              (Inl e, s1) \<Rightarrow> (Inl e, s1)
            | (Inr u, s1) \<Rightarrow>
                walk applyTextChanges (remainingChanges sent sortedChanges s) sents s1))"

definition applyChanges ::
  "(TextDocumentContentChangeEvent list \<Rightarrow> Sentence \<Rightarrow> bool \<times> Range) \<Rightarrow>
   TextDocumentContentChangeEvent list \<Rightarrow> int \<Rightarrow> STM \<Rightarrow> (error + unit) \<times> STM" where
  "applyChanges applyTextChanges changes newVersion s =
     (if \<not> running s \<or> changes = [] then (Inr (), s)
      else (case (case lastSentence s of
                    None \<Rightarrow> (Inl TypeError, s)
                  | Some l \<Rightarrow> walk applyTextChanges (sortChanges changes) (sentence_ancestors l s) s) of
              (Inr u, s1) \<Rightarrow> (Inr (), s1\<lparr> version := newVersion \<rparr>)
            | (Inl err, s1) \<Rightarrow>
                (case handleInconsistentState err s1 of
                   (Inl e, s2) \<Rightarrow> (Inl e, s2)
                 | (Inr u, s2) \<Rightarrow> (Inr (), s2\<lparr> version := newVersion \<rparr>))))"

section \<open>Specification predicates\<close>

text \<open>
  The state-id index mirrors the tree: a state id is indexed to a sentence exactly when the
  sentence is live in the tree and carries that state id. In particular the live sentences
  have pairwise different state ids.
\<close>

definition index_mirrors_tree :: "STM \<Rightarrow> bool" where
  "index_mirrors_tree s =
     (case sentences s of
        None \<Rightarrow> False
      | Some m \<Rightarrow> \<forall>k x. (m k = Some x) = (x \<in> live s \<and> stateId (store s x) = k))"

text \<open>The \<^verbatim>\<open>clearSentence\<close> callbacks for a list of sentences, with the ranges they have in \<open>s\<close>.\<close>

definition cleared :: "STM \<Rightarrow> nat list \<Rightarrow> event list" where
  "cleared s sents = map (\<lambda>x. ClearSentence (textRange (store s x))) sents"

text \<open>\<^verbatim>\<open>this.sentences.get(k)\<close>, with nothing found once the index is undefined.\<close>

definition indexed :: "STM \<Rightarrow> nat \<Rightarrow> nat option" where
  "indexed s k = (case sentences s of None \<Rightarrow> None | Some m \<Rightarrow> m k)"

text \<open>
  What draining a feedback buffer does, in closed form: the store after the buffered
  records whose state id is indexed have been applied to their sentences, in order, and
  the \<^verbatim>\<open>sentenceStatusUpdate\<close> callbacks invoked on the way, each with the range and the
  status the sentence has after its record was applied.
\<close>

fun feedback_store :: "(nat \<rightharpoonup> nat) \<Rightarrow> BufferedFeedback list \<Rightarrow> (nat \<Rightarrow> Sentence) \<Rightarrow> (nat \<Rightarrow> Sentence)" where
  "feedback_store m [] st = st"
| "feedback_store m (f # fs) st =
     (case m (fb_stateId f) of
        None \<Rightarrow> feedback_store m fs st
      | Some r \<Rightarrow> feedback_store m fs (st(r := transition (fb_status f) (st r))))"

fun feedback_events :: "(nat \<rightharpoonup> nat) \<Rightarrow> (nat \<Rightarrow> Sentence) \<Rightarrow> BufferedFeedback list \<Rightarrow> event list" where
  "feedback_events m st [] = []"
| "feedback_events m st (f # fs) =
     (case m (fb_stateId f) of
        None \<Rightarrow> feedback_events m st fs
      | Some r \<Rightarrow>
          SentenceStatusUpdate (textRange (st r)) (status (transition (fb_status f) (st r)))
            # feedback_events m (st(r := transition (fb_status f) (st r))) fs)"

text \<open>The state after the requests \<open>evs\<close> have been sent and answered.\<close>

definition requested :: "event list \<Rightarrow> STM \<Rightarrow> STM" where
  "requested evs s = s\<lparr> trace := trace s @ evs, coqtop_sent := coqtop_sent s + length evs \<rparr>"

text \<open>
  The range of a \<^verbatim>\<open>FailValue\<close>: \<^verbatim>\<open>positionAtRelative\<close> applied to the start of the command's
  range, the command's text and the start and stop offsets of the backend's failure.
\<close>

definition fail_range :: "Command \<Rightarrow> FailureResult \<Rightarrow> Range" where
  "fail_range command f =
     Range (positionAtRelative (range_start (cmd_range command)) (cmd_text command) (fail_start f))
           (positionAtRelative (range_start (cmd_range command)) (cmd_text command) (fail_stop f))"

text \<open>
  The order \<^verbatim>\<open>applyChanges\<close> sorts the changes into: a change comes before the changes that
  start at or before its own start.
\<close>

definition startsAtOrAfter :: "TextDocumentContentChangeEvent \<Rightarrow> TextDocumentContentChangeEvent \<Rightarrow> bool" where
  "startsAtOrAfter c d = positionIsAfterOrEqual (range_start (change_range c)) (range_start (change_range d))"

text \<open>
  The walk of section 4.5 of the specification, in its words: for each sentence, drop from
  the edit list every edit that starts at or after the end of the sentence; stop if the
  list is empty; otherwise apply the edits that are left to the sentence, cancelling it
  when it is invalidated.
\<close>

fun reconcile ::
  "(TextDocumentContentChangeEvent list \<Rightarrow> Sentence \<Rightarrow> bool \<times> Range) \<Rightarrow>
   TextDocumentContentChangeEvent list \<Rightarrow> nat list \<Rightarrow> STM \<Rightarrow> (error + unit) \<times> STM" where
  "reconcile applyTextChanges edits [] s = (Inr (), s)"
| "reconcile applyTextChanges edits (sent # sents) s =
     (let kept = filter (\<lambda>e. \<not> positionIsAfterOrEqual (range_start (change_range e))
                                    (range_end (textRange (store s sent)))) edits
      in if kept = [] then (Inr (), s)
         else (case visit applyTextChanges kept sent s of
                 (Inl e, s1) \<Rightarrow> (Inl e, s1)
               | (Inr u, s1) \<Rightarrow> reconcile applyTextChanges kept sents s1))"






text \<open>A state machine that has not been initialized: no root, no focus, no last sentence, no index.\<close>

definition blank :: "STM \<Rightarrow> bool" where
  "blank s = (root s = None \<and> focusedSentence s = None \<and> lastSentence s = None \<and> sentences s = None)"

text \<open>
  Three facts hold together in every state the public operations can produce: the callbacks
  are present exactly while the machine is running, a running machine has a feedback buffer,
  and a running machine has a root exactly when it has a state-id index.
\<close>

definition coherent :: "STM \<Rightarrow> bool" where
  "coherent s = (callbacks s = running s \<and> (running s \<longrightarrow> bufferedFeedback s \<noteq> None)
                   \<and> (running s \<longrightarrow> (root s = None) = (sentences s = None)))"

text \<open>
  The states of an editor session: the constructor, then any sequence of the public
  operations that assign fields of the state machine, and of the two events of the backend
  that do. The other public operations (\<^verbatim>\<open>getGoal\<close>, \<^verbatim>\<open>setWrappingWidth\<close>,
  \<^verbatim>\<open>requestLtacProfResults\<close>, \<^verbatim>\<open>getSentences\<close>, \<^verbatim>\<open>getSentenceErrors\<close>) and the other handlers
  of feedback assign none. An operation runs to its end before the next one or the next event
  is taken: an event delivered while an operation waits for the backend is not interleaved
  with it.
\<close>

inductive reachable :: "STM \<Rightarrow> bool" where
  constructed: "reachable (new_STM replies)"
| disposed: "reachable s \<Longrightarrow> reachable (dispose s)"
| stopped: "reachable s \<Longrightarrow> reachable (shutdown s)"
| interrupted: "reachable s \<Longrightarrow> reachable (interrupt s)"
| stepped: "reachable s \<Longrightarrow> stepForward fuel commandSequence verbose s = Some (r, s') \<Longrightarrow> reachable s'"
| stepped_back: "reachable s \<Longrightarrow> stepBackward s = (r, s') \<Longrightarrow> reachable s'"
| changed: "reachable s \<Longrightarrow> applyChanges applyTextChanges changes newVersion s = (r, s') \<Longrightarrow> reachable s'"
| interpreted: "reachable s \<Longrightarrow> interpretToPoint fuel pos commandSequence s = Some (r, s') \<Longrightarrow> reachable s'"
| queried: "reachable s \<Longrightarrow> doQuery query qpos s = (q, s') \<Longrightarrow> reachable s'"
| status_update: "reachable s \<Longrightarrow> onCoqStateStatusUpdate sid route st worker s = (r, s') \<Longrightarrow> reachable s'"
| closed: "reachable s \<Longrightarrow> onCoqClosed err s = (r, s') \<Longrightarrow> reachable s'"

section \<open>Example states\<close>

text \<open>
  The linear advance of section 8 of the specification: the backend answers the reset
  with root state 1 and the adds of \<^verbatim>\<open>A.\<close> at 0:0-0:2 and \<^verbatim>\<open>B.\<close> at 0:2-0:4 with the states
  2 and 3.
\<close>

definition linear_backend :: "nat \<Rightarrow> Reply" where
  "linear_backend n =
     \<lparr> add_reply = AddValue (if n = 1 then 2 else 3) None, editAt_reply = EditAtValue None,
       reset_reply = 1, query_reply = [] \<rparr>"

definition cmd_A :: Command where
  "cmd_A = \<lparr> cmd_text = ''A.'', cmd_range = Range (Position 0 0) (Position 0 2) \<rparr>"

definition cmd_B :: Command where
  "cmd_B = \<lparr> cmd_text = ''B.'', cmd_range = Range (Position 0 2) (Position 0 4) \<rparr>"

definition sentence_A :: Sentence where
  "sentence_A = \<lparr> stateId = 2, commandText = ''A.'', textRange = Range (Position 0 0) (Position 0 2),
                   status = ProcessingInput \<rparr>"

definition sentence_B :: Sentence where
  "sentence_B = \<lparr> stateId = 3, commandText = ''B.'', textRange = Range (Position 0 2) (Position 0 4),
                   status = ProcessingInput \<rparr>"

definition stm_root :: STM where
  "stm_root =
     \<lparr> version = 0, root = Some (Node 0 []), sentences = Some [1 \<mapsto> 0],
       focusedSentence = Some 0, lastSentence = Some 0, bufferedFeedback = Some [],
       running = True, callbacks = True,
       store = (\<lambda>_. no_sentence)(0 := newRoot 1),
       next_ref = 1, coqtop_isRunning = True, coqtop_replies = linear_backend, coqtop_sent = 1,
       trace = [ResetCoq] \<rparr>"

definition stm_A :: STM where
  "stm_A =
     \<lparr> version = 0, root = Some (Node 0 [Node 1 []]), sentences = Some [1 \<mapsto> 0, 2 \<mapsto> 1],
       focusedSentence = Some 1, lastSentence = Some 1, bufferedFeedback = Some [],
       running = True, callbacks = True,
       store = (\<lambda>_. no_sentence)(0 := newRoot 1, 1 := sentence_A),
       next_ref = 2, coqtop_isRunning = True, coqtop_replies = linear_backend, coqtop_sent = 2,
       trace = [ResetCoq, CoqAddCommand ''A.'' 0 1 False] \<rparr>"

definition stm_AB :: STM where
  "stm_AB =
     \<lparr> version = 0, root = Some (Node 0 [Node 1 [Node 2 []]]),
       sentences = Some [1 \<mapsto> 0, 2 \<mapsto> 1, 3 \<mapsto> 2],
       focusedSentence = Some 2, lastSentence = Some 2, bufferedFeedback = Some [],
       running = True, callbacks = True,
       store = (\<lambda>_. no_sentence)(0 := newRoot 1, 1 := sentence_A, 2 := sentence_B),
       next_ref = 3, coqtop_isRunning = True, coqtop_replies = linear_backend, coqtop_sent = 3,
       trace = [ResetCoq, CoqAddCommand ''A.'' 0 1 False, CoqAddCommand ''B.'' 0 2 False] \<rparr>"

text \<open>
  After \<^verbatim>\<open>A.\<close>, a backend that has reported the states 3 and 7, which are not indexed yet,
  and that answers the next add with state 3 and the unfocused state 1, the root.
\<close>

definition unfocusing_backend :: "nat \<Rightarrow> Reply" where
  "unfocusing_backend n =
     \<lparr> add_reply = (if n = 1 then AddValue 2 None else AddValue 3 (Some 1)),
       editAt_reply = EditAtValue None, reset_reply = 1, query_reply = [] \<rparr>"

definition stm_A_buffered :: STM where
  "stm_A_buffered =
     stm_A\<lparr> coqtop_replies := unfocusing_backend,
            bufferedFeedback := Some [\<lparr> fb_stateId = 3, fb_status = Processed, fb_worker = ''w'' \<rparr>,
                                      \<lparr> fb_stateId = 7, fb_status = Complete, fb_worker = ''w'' \<rparr>] \<rparr>"

text \<open>
  A backend that answers the reset with root state 0: the first sentence \<^verbatim>\<open>A.\<close> is state 2, and
  the root is indexed under 0. \<^verbatim>\<open>unfocus_zero_backend\<close> answers the next add with state 3
  and unfocused state 0, \<^verbatim>\<open>failing_zero_backend\<close> fails it with fallback state 0.
\<close>

definition zero_rooted :: "(nat \<Rightarrow> Reply) \<Rightarrow> STM" where
  "zero_rooted replies =
     \<lparr> version = 0, root = Some (Node 0 [Node 1 []]), sentences = Some [0 \<mapsto> 0, 2 \<mapsto> 1],
       focusedSentence = Some 1, lastSentence = Some 1, bufferedFeedback = Some [],
       running = True, callbacks = True,
       store = (\<lambda>_. no_sentence)(0 := newRoot 0, 1 := sentence_A),
       next_ref = 2, coqtop_isRunning = True, coqtop_replies = replies, coqtop_sent = 2,
       trace = [ResetCoq, CoqAddCommand ''A.'' 0 0 False] \<rparr>"

definition unfocus_zero_backend :: "nat \<Rightarrow> Reply" where
  "unfocus_zero_backend n =
     \<lparr> add_reply = (if n = 1 then AddValue 2 None else AddValue 3 (Some 0)),
       editAt_reply = EditAtValue None, reset_reply = 0, query_reply = [] \<rparr>"

definition syntax_failure :: "nat option \<Rightarrow> FailureResult" where
  "syntax_failure sid = \<lparr> fail_stateId = sid, fail_message = ''syntax'', fail_start = 0, fail_stop = 3 \<rparr>"


text \<open>
  The failed add of section 8 of the specification: after the linear advance the backend
  rejects \<^verbatim>\<open>Bad.\<close> at 0:4-0:8 with fallback state 2, the message \<^verbatim>\<open>syntax\<close> and the offsets 0
  to 3.
\<close>

definition failing_backend :: "nat \<Rightarrow> Reply" where
  "failing_backend n =
     \<lparr> add_reply = (if n = 1 then AddValue 2 None else if n = 2 then AddValue 3 None
                     else AddFailure (syntax_failure (Some 2))),
       editAt_reply = EditAtValue None, reset_reply = 1, query_reply = [] \<rparr>"

definition cmd_bad :: Command where
  "cmd_bad = \<lparr> cmd_text = ''Bad.'', cmd_range = Range (Position 0 4) (Position 0 8) \<rparr>"

text \<open>A backend whose answer to the first add is state 5.\<close>

definition early_backend :: "nat \<Rightarrow> Reply" where
  "early_backend n =
     \<lparr> add_reply = AddValue 5 None, editAt_reply = EditAtValue None, reset_reply = 1, query_reply = [] \<rparr>"

text \<open>
  The proof jump of section 8 of the specification: the root (state 1), then the sentences
  of states 2, 3 and 4, the last one closing the proof; the backend answers edit-at with a
  new focus whose qed state is 4.
\<close>

definition proof_backend :: "nat \<Rightarrow> Reply" where
  "proof_backend n =
     \<lparr> add_reply = AddValue (n + 1) None, editAt_reply = EditAtValue (Some 4), reset_reply = 1,
       query_reply = [] \<rparr>"

definition stm_proof :: STM where
  "stm_proof =
     \<lparr> version = 0, root = Some (Node 0 [Node 1 [Node 2 [Node 3 []]]]),
       sentences = Some [1 \<mapsto> 0, 2 \<mapsto> 1, 3 \<mapsto> 2, 4 \<mapsto> 3],
       focusedSentence = Some 3, lastSentence = Some 3, bufferedFeedback = Some [],
       running = True, callbacks = True,
       store = (\<lambda>_. no_sentence)
         (0 := newRoot 1,
          1 := \<lparr> stateId = 2, commandText = ''Proof.'', textRange = Range (Position 0 0) (Position 0 6),
                  status = Processed \<rparr>,
          2 := \<lparr> stateId = 3, commandText = ''auto.'', textRange = Range (Position 0 6) (Position 0 11),
                  status = Processed \<rparr>,
          3 := \<lparr> stateId = 4, commandText = ''Qed.'', textRange = Range (Position 0 11) (Position 0 15),
                  status = Processed \<rparr>),
       next_ref = 4, coqtop_isRunning = True, coqtop_replies = proof_backend, coqtop_sent = 4,
       trace = [] \<rparr>"

text \<open>
  Modelled from the spec: the invalidation policy of \<^verbatim>\<open>applyTextChanges\<close> (section 4.2): a
  sentence is invalidated when the range of an edit intersects the interior of the sentence
  and does not merely touch its boundary. Shifting the range for edits that lie before the
  sentence needs \<^verbatim>\<open>toRangeDelta\<close>, which is not among the sources; \<^verbatim>\<open>applyTextChanges_interior\<close>
  leaves the range as it is and so stands for \<^verbatim>\<open>applyTextChanges\<close> where no edit lies before
  the sentence.
\<close>

definition intersectsInterior :: "TextDocumentContentChangeEvent \<Rightarrow> Range \<Rightarrow> bool" where
  "intersectsInterior c r =
     (positionIsBefore (range_start (change_range c)) (range_end r)
      \<and> positionIsAfter (range_end (change_range c)) (range_start r))"

definition applyTextChanges_interior :: "TextDocumentContentChangeEvent list \<Rightarrow> Sentence \<Rightarrow> bool \<times> Range" where
  "applyTextChanges_interior changes sent =
     (list_ex (\<lambda>c. intersectsInterior c (textRange sent)) changes, textRange sent)"

text \<open>
  The state after the proof jump: \<^verbatim>\<open>focusSentence\<close> of the sentence of state 2 in \<^verbatim>\<open>stm_proof\<close>
  has removed the sentence of state 3; the focus is state 2 and the last sentence is the
  closing sentence of state 4, at 0:11-0:15. \<^verbatim>\<open>edit_in_qed\<close> replaces 0:12-0:13, inside it.
\<close>

definition stm_jumped :: STM where
  "stm_jumped =
     \<lparr> version = 0, root = Some (Node 0 [Node 1 [Node 3 []]]),
       sentences = Some [1 \<mapsto> 0, 2 \<mapsto> 1, 4 \<mapsto> 3],
       focusedSentence = Some 1, lastSentence = Some 3, bufferedFeedback = Some [],
       running = True, callbacks = True,
       store = (\<lambda>_. no_sentence)
         (0 := newRoot 1,
          1 := \<lparr> stateId = 2, commandText = ''Proof.'', textRange = Range (Position 0 0) (Position 0 6),
                  status = Processed \<rparr>,
          2 := \<lparr> stateId = 3, commandText = ''auto.'', textRange = Range (Position 0 6) (Position 0 11),
                  status = Processed \<rparr>,
          3 := \<lparr> stateId = 4, commandText = ''Qed.'', textRange = Range (Position 0 11) (Position 0 15),
                  status = Processed \<rparr>),
       next_ref = 4, coqtop_isRunning = True, coqtop_replies = proof_backend, coqtop_sent = 5,
       trace = [CoqEditAt 2, ClearSentence (Range (Position 0 6) (Position 0 11))] \<rparr>"

definition edit_in_qed :: TextDocumentContentChangeEvent where
  "edit_in_qed = \<lparr> change_range = Range (Position 0 12) (Position 0 13), change_text = ''x'' \<rparr>"

text \<open>
  After the proof jump the focus is the sentence of state 2, and the next command of the
  script is \<^verbatim>\<open>auto.\<close> at 0:6-0:11 again. The backend answers its add with state 6. The new
  sentence is appended to the children of the sentence of state 2, behind the closing
  sentence, and has the focus; the closing sentence stays the last one.
\<close>

definition cmd_auto :: Command where
  "cmd_auto = \<lparr> cmd_text = ''auto.'', cmd_range = Range (Position 0 6) (Position 0 11) \<rparr>"

definition stm_branched :: STM where
  "stm_branched =
     \<lparr> version = 0, root = Some (Node 0 [Node 1 [Node 3 [], Node 4 []]]),
       sentences = Some [1 \<mapsto> 0, 2 \<mapsto> 1, 4 \<mapsto> 3, 6 \<mapsto> 4],
       focusedSentence = Some 4, lastSentence = Some 3, bufferedFeedback = Some [],
       running = True, callbacks = True,
       store = (\<lambda>_. no_sentence)
         (0 := newRoot 1,
          1 := \<lparr> stateId = 2, commandText = ''Proof.'', textRange = Range (Position 0 0) (Position 0 6),
                  status = Processed \<rparr>,
          2 := \<lparr> stateId = 3, commandText = ''auto.'', textRange = Range (Position 0 6) (Position 0 11),
                  status = Processed \<rparr>,
          3 := \<lparr> stateId = 4, commandText = ''Qed.'', textRange = Range (Position 0 11) (Position 0 15),
                  status = Processed \<rparr>,
          4 := \<lparr> stateId = 6, commandText = ''auto.'', textRange = Range (Position 0 6) (Position 0 11),
                  status = ProcessingInput \<rparr>),
       next_ref = 5, coqtop_isRunning = True, coqtop_replies = proof_backend, coqtop_sent = 6,
       trace = [CoqEditAt 2, ClearSentence (Range (Position 0 6) (Position 0 11)),
                CoqAddCommand ''auto.'' 0 2 False] \<rparr>"

text \<open>
  A parser of the script \<^verbatim>\<open>A.B.\<close>: the commands from a position on.
\<close>

definition script_AB :: "Position \<Rightarrow> Position option \<Rightarrow> Command list" where
  "script_AB p e =
     (if p = Position 0 0 then [cmd_A, cmd_B] else if p = Position 0 2 then [cmd_B] else [])"

text \<open>
  A backend that answers the add of \<^verbatim>\<open>B.\<close> with state 3 and the unfocused state 9, which is
  not indexed.
\<close>

definition unfocus_unknown_backend :: "nat \<Rightarrow> Reply" where
  "unfocus_unknown_backend n =
     \<lparr> add_reply = (if n = 1 then AddValue 2 None else AddValue 3 (Some 9)),
       editAt_reply = EditAtValue None, reset_reply = 1, query_reply = [] \<rparr>"


section \<open>Properties of the sentence tree\<close>

lemma first_some_None_iff: "first_some xs = None \<longleftrightarrow> (\<forall>x\<in>set xs. x = None)"
  by (induction xs rule: first_some.induct) auto

lemma first_some_Some_in: "first_some xs = Some y \<Longrightarrow> Some y \<in> set xs"
  by (induction xs rule: first_some.induct) auto

lemma subtree_None_iff: "subtree r t = None \<longleftrightarrow> r \<notin> set (preorder t)"
proof (induction t)
  case (Node x ts)
  then show ?case by (auto simp: first_some_None_iff)
qed

lemma subtree_Some: "subtree r t = Some u \<Longrightarrow> ref u = r \<and> set (preorder u) \<subseteq> set (preorder t)"
proof (induction t)
  case (Node x ts)
  show ?case
  proof (cases "x = r")
    case True
    with Node.prems show ?thesis by auto
  next
    case False
    with Node.prems have "Some u \<in> set (map (subtree r) ts)"
      by (auto dest: first_some_Some_in)
    then obtain c where c: "c \<in> set ts" "subtree r c = Some u" by auto
    with Node.IH have "ref u = r \<and> set (preorder u) \<subseteq> set (preorder c)" by blast
    with c show ?thesis by auto
  qed
qed

lemma truncate_tree_id: "r \<notin> set (preorder t) \<Longrightarrow> truncate_tree r t = t"
proof (induction t)
  case (Node x ts)
  then show ?case by (auto simp: map_idI)
qed




lemma preorder_nonempty: "ref t \<in> set (preorder t)"
  by (cases t) simp

text \<open>Children of a node whose references are pairwise distinct.\<close>

lemma forest_disjoint:
  assumes "distinct (concat (map preorder ts))" "c \<in> set ts" "d \<in> set ts"
    "x \<in> set (preorder c)" "x \<in> set (preorder d)"
  shows "preorder c = preorder d"
  using assms by (auto simp: distinct_concat_iff)

lemma forest_subtree:
  assumes "distinct (concat (map preorder ts))" "c \<in> set ts" "r \<in> set (preorder c)"
  shows "first_some (map (subtree r) ts) = subtree r c"
  using assms
proof (induction ts)
  case Nil
  then show ?case by simp
next
  case (Cons a as)
  show ?case
  proof (cases "r \<in> set (preorder a)")
    case True
    then obtain u where u: "subtree r a = Some u"
      using subtree_None_iff[of r a] by auto
    from Cons.prems(3) obtain v where v: "subtree r c = Some v"
      using subtree_None_iff[of r c] by auto
    show ?thesis
    proof (cases "c = a")
      case True
      with u show ?thesis by simp
    next
      case False
      with Cons.prems have "c \<in> set as" by simp
      with Cons.prems(1,3) True have False by auto
      then show ?thesis ..
    qed
  next
    case False
    then have "subtree r a = None" by (simp add: subtree_None_iff)
    moreover from False Cons.prems have "c \<in> set as" by auto
    moreover from Cons.prems have "distinct (concat (map preorder as))" by simp
    ultimately show ?thesis using Cons.IH Cons.prems(3) by simp
  qed
qed

lemma subtree_distinct: "subtree r t = Some u \<Longrightarrow> distinct (preorder t) \<Longrightarrow> distinct (preorder u)"
proof (induction t)
  case (Node x ts)
  show ?case
  proof (cases "x = r")
    case True
    with Node.prems show ?thesis by auto
  next
    case False
    with Node.prems have "Some u \<in> set (map (subtree r) ts)"
      by (auto dest: first_some_Some_in)
    then obtain c where c: "c \<in> set ts" "subtree r c = Some u" by auto
    from Node.prems(2) c(1) have "distinct (preorder c)"
      by (auto simp: distinct_concat_iff)
    with Node.IH c show ?thesis by blast
  qed
qed

lemma descendants_of_subset: "set (descendants_of r t) \<subseteq> set (preorder t)"
proof (cases "subtree r t")
  case None
  then show ?thesis by (simp add: descendants_of_def)
next
  case (Some u)
  then have "set (preorder u) \<subseteq> set (preorder t)" by (simp add: subtree_Some)
  moreover have "set (descendants u) \<subseteq> set (preorder u)"
    by (cases u) (auto simp: descendants_def)
  ultimately show ?thesis using Some by (auto simp: descendants_of_def)
qed

lemma self_not_descendant: "distinct (preorder t) \<Longrightarrow> r \<notin> set (descendants_of r t)"
proof (cases "subtree r t")
  case None
  then show ?thesis by (simp add: descendants_of_def)
next
  case (Some u)
  assume "distinct (preorder t)"
  with Some have "distinct (preorder u)" "ref u = r"
    by (auto dest: subtree_distinct subtree_Some)
  then have "r \<notin> set (descendants u)" by (cases u) (auto simp: descendants_def)
  with Some show ?thesis by (simp add: descendants_of_def)
qed

lemma root_not_descendant: "distinct (preorder t) \<Longrightarrow> ref t \<notin> set (descendants_of r t)"
proof (cases t)
  case (Node x ts)
  assume d: "distinct (preorder t)"
  show ?thesis
  proof (cases "x = r")
    case True
    with d Node show ?thesis using self_not_descendant[of t r] by simp
  next
    case False
    show ?thesis
    proof (cases "first_some (map (subtree r) ts)")
      case None
      with False Node show ?thesis by (simp add: descendants_of_def)
    next
      case (Some u)
      then obtain c where c: "c \<in> set ts" "subtree r c = Some u"
        by (auto dest!: first_some_Some_in)
      then have "set (descendants_of r c) \<subseteq> set (preorder c)"
        using descendants_of_subset by blast
      moreover from c have "descendants_of r c = descendants u" by (simp add: descendants_of_def)
      moreover from Some False Node have "descendants_of r t = descendants u"
        by (simp add: descendants_of_def)
      moreover from d Node c(1) have "x \<notin> set (preorder c)" by auto
      ultimately show ?thesis using Node by auto
    qed
  qed
qed

lemma preorder_truncate:
  "distinct (preorder t) \<Longrightarrow>
   preorder (truncate_tree r t) = filter (\<lambda>x. x \<notin> set (descendants_of r t)) (preorder t)"
proof (induction t)
  case (Node x ts)
  let ?D = "descendants_of r (Node x ts)"
  show ?case
  proof (cases "x = r")
    case True
    then have D: "?D = concat (map preorder ts)"
      by (simp add: descendants_of_def descendants_def)
    from Node.prems have "x \<notin> set (concat (map preorder ts))" by simp
    moreover have "filter (\<lambda>y. y \<notin> set (concat (map preorder ts))) (concat (map preorder ts)) = []"
      by (simp add: filter_empty_conv)
    ultimately show ?thesis using True D by simp
  next
    case False
    from Node.prems have dc: "distinct (concat (map preorder ts))" and xn: "x \<notin> set (concat (map preorder ts))"
      by simp_all
    have xD: "x \<notin> set ?D" using root_not_descendant[OF Node.prems, of r] by simp
    have child: "preorder (truncate_tree r c) = filter (\<lambda>y. y \<notin> set ?D) (preorder c)" if c: "c \<in> set ts" for c
    proof (cases "r \<in> set (preorder c)")
      case True
      from dc c have "distinct (preorder c)" by (auto simp: distinct_concat_iff)
      with Node.IH c have "preorder (truncate_tree r c) = filter (\<lambda>y. y \<notin> set (descendants_of r c)) (preorder c)"
        by blast
      moreover have "?D = descendants_of r c"
        using forest_subtree[OF dc c True] False by (simp add: descendants_of_def)
      ultimately show ?thesis by simp
    next
      case rn: False
      then have t: "truncate_tree r c = c" by (rule truncate_tree_id)
      have "set ?D \<inter> set (preorder c) = {}"
      proof (cases "first_some (map (subtree r) ts)")
        case None
        with False show ?thesis by (simp add: descendants_of_def)
      next
        case (Some u)
        then obtain d where d: "d \<in> set ts" "subtree r d = Some u"
          by (auto dest!: first_some_Some_in)
        then have rd: "r \<in> set (preorder d)" using subtree_None_iff[of r d] by auto
        from Some False have "?D = descendants u" by (simp add: descendants_of_def)
        with d have "?D = descendants_of r d" by (simp add: descendants_of_def)
        then have sub: "set ?D \<subseteq> set (preorder d)" using descendants_of_subset by metis
        have "set (preorder d) \<inter> set (preorder c) = {}"
        proof (rule ccontr)
          assume "set (preorder d) \<inter> set (preorder c) \<noteq> {}"
          then obtain y where "y \<in> set (preorder d)" "y \<in> set (preorder c)" by auto
          then have "preorder d = preorder c" using forest_disjoint[OF dc d(1) c] by simp
          with rd rn show False by simp
        qed
        with sub show ?thesis by auto
      qed
      then have "filter (\<lambda>y. y \<notin> set ?D) (preorder c) = preorder c"
        by (auto simp: filter_id_conv)
      with t show ?thesis by simp
    qed
    have "concat (map preorder (map (truncate_tree r) ts))
          = concat (map (\<lambda>c. filter (\<lambda>y. y \<notin> set ?D) (preorder c)) ts)"
      using child by (auto intro!: arg_cong[where f=concat] map_cong simp: comp_def)
    also have "\<dots> = filter (\<lambda>y. y \<notin> set ?D) (concat (map preorder ts))"
      by (simp add: filter_concat comp_def)
    finally show ?thesis using False xD by simp
  qed
qed

lemma subtree_truncate:
  "subtree r (truncate_tree r t) = None \<or> subtree r (truncate_tree r t) = Some (Node r [])"
proof (induction t)
  case (Node x ts)
  show ?case
  proof (cases "x = r")
    case True
    then show ?thesis by simp
  next
    case False
    show ?thesis
    proof (cases "first_some (map (subtree r) (map (truncate_tree r) ts))")
      case None
      with False show ?thesis by simp
    next
      case (Some u)
      then obtain c where "c \<in> set ts" "subtree r (truncate_tree r c) = Some u"
        by (auto dest!: first_some_Some_in)
      with Node.IH have "u = Node r []" by fastforce
      with Some False show ?thesis by simp
    qed
  qed
qed

lemma descendants_of_truncate: "descendants_of r (truncate_tree r t) = []"
  using subtree_truncate[of r t] by (auto simp: descendants_of_def descendants_def)

section \<open>The running flag is never set again\<close>

lemma dispose_dead: "\<not> running (dispose s)"
  by (simp add: dispose_def emit_def)

lemma await_running: "await e s = (rep, s') \<Longrightarrow> running s' = running s"
  by (auto simp: await_def emit_def)

lemma callback_running: "callback e s = Inr s' \<Longrightarrow> running s' = running s"
  by (auto simp: callback_def emit_def split: if_splits)

lemma initialize_running: "initialize sid s = (r, s') \<Longrightarrow> running s' = running s"
  by (auto simp: initialize_def Let_def split: if_splits)

lemma validateState_running: "validateState b s = (r, s') \<Longrightarrow> running s' \<Longrightarrow> running s"
  by (auto simp: validateState_def await_def emit_def split: if_splits prod.splits sum.splits
      dest!: initialize_running)

lemma handleInconsistentState_running:
  "handleInconsistentState err s = (r, s') \<Longrightarrow> running s' \<Longrightarrow> running s"
  by (auto simp: handleInconsistentState_def dispose_dead split: sum.splits)

lemma throwInconsistentState_running:
  "throwInconsistentState msg s = (r, s') \<Longrightarrow> running s' \<Longrightarrow> running s"
  by (auto simp: throwInconsistentState_def dispose_dead split: sum.splits)

lemma deleteSentence_running: "deleteSentence x s = (r, s') \<Longrightarrow> running s' = running s"
  by (auto simp: deleteSentence_def callback_def emit_def split: sum.splits option.splits if_splits)

lemma deleteSentences_running: "deleteSentences xs s = (r, s') \<Longrightarrow> running s' = running s"
proof (induction xs arbitrary: s)
  case Nil
  then show ?case by simp
next
  case (Cons x xs)
  then show ?case
    by (auto split: prod.splits sum.splits dest: deleteSentence_running)
qed

lemma rewindTo_running: "rewindTo n s = (r, s') \<Longrightarrow> running s' = running s"
  by (auto simp: rewindTo_def split: option.splits prod.splits sum.splits dest: deleteSentences_running)

lemma rewindRange_running: "rewindRange a e s = (r, s') \<Longrightarrow> running s' = running s"
  by (auto simp: rewindRange_def split: option.splits prod.splits dest: deleteSentences_running)

lemma gotoErrorFallbackState_try_running:
  "gotoErrorFallbackState_try sid s = (r, s') \<Longrightarrow> running s' = running s"
  by (auto simp: gotoErrorFallbackState_try_def split: option.splits prod.splits EditAtResult.splits
      dest: await_running rewindTo_running)

lemma gotoErrorFallbackState_running:
  "gotoErrorFallbackState sid s = (r, s') \<Longrightarrow> running s' \<Longrightarrow> running s"
  by (auto simp: gotoErrorFallbackState_def split: prod.splits sum.splits
      dest: gotoErrorFallbackState_try_running handleInconsistentState_running)

lemma focusSentence_try_running:
  "focusSentence_try x s = (r, s') \<Longrightarrow> running s' = running s"
  by (auto simp: focusSentence_try_def split: option.splits prod.splits EditAtResult.splits sum.splits
      dest: await_running rewindTo_running rewindRange_running)

lemma focusSentence_running:
  "focusSentence x s = (r, s') \<Longrightarrow> running s' \<Longrightarrow> running s"
  by (auto simp: focusSentence_def split: if_splits prod.splits sum.splits option.splits
      dest: focusSentence_try_running gotoErrorFallbackState_running)

lemma cancelSentence_running:
  "cancelSentence x s = (r, s') \<Longrightarrow> running s' \<Longrightarrow> running s"
  by (auto simp: cancelSentence_def split: option.splits dest: focusSentence_running)

lemma stepBackward_running:
  "stepBackward s = (r, s') \<Longrightarrow> running s' \<Longrightarrow> running s"
  by (auto simp: stepBackward_def split: prod.splits sum.splits
      dest: cancelSentence_running validateState_running)

lemma applyFeedback_running: "applyFeedback fs s = (r, s') \<Longrightarrow> running s' = running s"
proof (induction fs arbitrary: s)
  case Nil
  then show ?case by simp
next
  case (Cons f fs)
  then show ?case
    by (auto simp: Let_def updateStatus_def transition_def callback_def emit_def
        split: option.splits sum.splits if_splits)
qed

lemma applyBufferedFeedback_running: "applyBufferedFeedback s = (r, s') \<Longrightarrow> running s' = running s"
  by (auto simp: applyBufferedFeedback_def split: option.splits prod.splits sum.splits
      dest: applyFeedback_running)


lemma onCoqClosed_running: "onCoqClosed err s = (r, s') \<Longrightarrow> running s' \<Longrightarrow> running s"
  by (auto simp: onCoqClosed_def Let_def dispose_dead split: if_splits sum.splits
      dest: callback_running)

lemma addCommand_value_running:
  "addCommand_value p c n u s = (r, s') \<Longrightarrow> running s' = running s"
  by (auto simp: addCommand_value_def Sentence_add_def Let_def updateStatus_def transition_def
      split: option.splits prod.splits sum.splits if_splits dest!: applyBufferedFeedback_running)

lemma addCommand_try_running:
  "addCommand_try c v s = (r, s') \<Longrightarrow> running s' \<Longrightarrow> running s"
  by (auto simp: addCommand_try_def
      split: option.splits prod.splits sum.splits if_splits AddResult.splits
      dest: addCommand_value_running await_running throwInconsistentState_running)

lemma addCommand_running:
  "addCommand c v s = (r, s') \<Longrightarrow> running s' \<Longrightarrow> running s"
  by (auto simp: addCommand_def
      split: option.splits prod.splits sum.splits error.splits
      dest: addCommand_try_running gotoErrorFallbackState_running)

lemma iterate_running:
  "iterate fuel cond cs v e cf it nc s = Some (r, s') \<Longrightarrow> running s' \<Longrightarrow> running s"
proof (induction fuel cond cs v e cf it nc s rule: iterate.induct)
  case (1 iterateCondition commandSequence verbose endp contiguousFocus it nextCommand s)
  then show ?case by simp
next
  case (2 fuel iterateCondition commandSequence verbose endp contiguousFocus it s)
  then show ?case by simp
next
  case (3 fuel iterateCondition commandSequence verbose endp contiguousFocus it command s)
  then show ?case
    by (auto split: if_splits prod.splits sum.splits dest: addCommand_running)
qed

lemma iterateAdvanceFocus_running:
  "iterateAdvanceFocus fuel cond cs v e s = Some (r, s') \<Longrightarrow> running s' \<Longrightarrow> running s"
  by (auto simp: iterateAdvanceFocus_def Let_def dest: iterate_running)

lemma stepForward_running:
  "stepForward fuel cs v s = Some (r, s') \<Longrightarrow> running s' \<Longrightarrow> running s"
  by (auto simp: stepForward_def Let_def split: prod.splits sum.splits
      dest: iterateAdvanceFocus_running validateState_running)

lemma interpretToPoint_running:
  "interpretToPoint fuel pos cs s = Some (r, s') \<Longrightarrow> running s' \<Longrightarrow> running s"
  by (auto simp: interpretToPoint_def split: prod.splits sum.splits option.splits if_splits
      dest: iterateAdvanceFocus_running validateState_running focusSentence_running)

lemma doQuery_running:
  "doQuery q pos s = (r, s') \<Longrightarrow> running s' \<Longrightarrow> running s"
  by (auto simp: doQuery_def split: prod.splits sum.splits option.splits
      dest: validateState_running await_running)

lemma visit_running:
  "visit atc cs sent s = (r, s') \<Longrightarrow> running s' \<Longrightarrow> running s"
proof -
  assume a: "visit atc cs sent s = (r, s')" and b: "running s'"
  obtain inv rng where i: "atc cs (store s sent) = (inv, rng)" by (cases "atc cs (store s sent)")
  let ?s1 = "s\<lparr> store := (store s)(sent := (store s sent)\<lparr> textRange := rng \<rparr>) \<rparr>"
  show ?thesis
  proof (cases inv)
    case True
    with a i have "cancelSentence (Some sent) ?s1 = (r, s')" by (simp add: visit_def)
    from cancelSentence_running[OF this b] show ?thesis by simp
  next
    case False
    with a i b show ?thesis by (auto simp: visit_def)
  qed
qed

lemma walk_running:
  "walk atc cs sents s = (r, s') \<Longrightarrow> running s' \<Longrightarrow> running s"
proof (induction sents arbitrary: cs s)
  case Nil
  then show ?case by simp
next
  case (Cons sent sents)
  let ?rem = "remainingChanges sent cs s"
  show ?case
  proof (cases "?rem = []")
    case True
    with Cons.prems show ?thesis by simp
  next
    case False
    obtain r1 s1 where v: "visit atc ?rem sent s = (r1, s1)" by (cases "visit atc ?rem sent s")
    show ?thesis
    proof (cases r1)
      case (Inl e)
      with Cons.prems False v have "s' = s1" by simp
      with Cons.prems v show ?thesis using visit_running by blast
    next
      case (Inr u)
      with Cons.prems False v have "walk atc ?rem sents s1 = (r, s')" by simp
      with Cons.IH Cons.prems(2) have "running s1" by blast
      with v show ?thesis using visit_running by blast
    qed
  qed
qed

lemma applyChanges_running:
  "applyChanges atc cs v s = (r, s') \<Longrightarrow> running s' \<Longrightarrow> running s"
  by (auto simp: applyChanges_def split: if_splits prod.splits sum.splits option.splits
      dest: walk_running handleInconsistentState_running)



section \<open>Deleting sentences\<close>

lemma deleteSentences_ok:
  assumes "callbacks s" "sentences s = Some m"
  shows "deleteSentences ds s =
     (Inr (), s\<lparr> sentences := Some (\<lambda>k. if k \<in> (\<lambda>x. stateId (store s x)) ` set ds then None else m k),
                 trace := trace s @ cleared s ds \<rparr>)"
  using assms
proof (induction ds arbitrary: s m)
  case Nil
  then show ?case by (simp add: cleared_def)
next
  case (Cons d ds)
  let ?s1 = "s\<lparr> trace := trace s @ [ClearSentence (textRange (store s d))],
                 sentences := Some (m(stateId (store s d) := None)) \<rparr>"
  have step: "deleteSentence d s = (Inr (), ?s1)"
    using Cons.prems by (simp add: deleteSentence_def callback_def emit_def)
  have "callbacks ?s1" "sentences ?s1 = Some (m(stateId (store s d) := None))"
    using Cons.prems by simp_all
  from Cons.IH[OF this] step show ?case
    by (auto simp: cleared_def fun_eq_iff intro!: STM.equality)
qed

section \<open>The example states are reached\<close>

lemma stm_root_reached: "validateState True (new_STM linear_backend) = (Inr True, stm_root)"
  by (simp add: stm_root_def validateState_def new_STM_def await_def emit_def initialize_def
      Let_def linear_backend_def)

lemma stm_A_reached: "addCommand cmd_A False stm_root = (Inr (1, False), stm_A)"
  by (simp add: stm_root_def stm_A_def validateState_def await_def emit_def Let_def
      addCommand_def addCommand_try_def addCommand_value_def Sentence_add_def
      applyBufferedFeedback_def updateStatus_def transition_def positionIsEqual_def positionIsAfterOrEqual_def
      cmd_A_def linear_backend_def sentence_A_def newRoot_def fun_upd_twist)

lemma stm_AB_reached: "addCommand cmd_B False stm_A = (Inr (2, False), stm_AB)"
  by (simp add: stm_A_def stm_AB_def await_def emit_def Let_def
      addCommand_def addCommand_try_def addCommand_value_def Sentence_add_def
      applyBufferedFeedback_def updateStatus_def transition_def positionIsEqual_def positionIsAfterOrEqual_def
      cmd_B_def linear_backend_def sentence_A_def sentence_B_def newRoot_def fun_upd_twist)

section \<open>C1: a command off the focus is an inconsistent state\<close>

text \<open>
  Claim C1. Whenever \<^verbatim>\<open>addCommand\<close> is called with a command whose range does not start at
  the end of the focused sentence's range, the state machine calls \<^verbatim>\<open>coqDied\<close> with the
  message \<^verbatim>\<open>Inconsistent state: Can only add a comand to the current focus\<close>, disposes itself
  (\<^verbatim>\<open>running\<close> becomes false) and throws \<^verbatim>\<open>InconsistentState\<close>; nothing is sent to the backend:
  the trace grows by the callback and the disposal of the transport only. The state machine
  has a focused sentence and has not been disposed (its callbacks are still set).
\<close>

theorem addCommand_off_focus:
  assumes "focusedSentence s = Some parent" and "callbacks s"
    and "\<not> positionIsEqual (range_end (textRange (store s parent))) (range_start (cmd_range command))"
  shows "fst (addCommand command verbose s) =
            Inl (InconsistentState ''Can only add a comand to the current focus'')
          \<and> \<not> running (snd (addCommand command verbose s))
          \<and> trace (snd (addCommand command verbose s)) =
              trace s @ [CoqDied ''Inconsistent state: Can only add a comand to the current focus'',
                         CoqtopDispose]
          \<and> coqtop_sent (snd (addCommand command verbose s)) = coqtop_sent s"
  using assms
  by (simp add: addCommand_def addCommand_try_def throwInconsistentState_def callback_def
      dispose_def emit_def)

theorem addCommand_off_focus_witness:
  "fst (addCommand cmd_B False stm_root) = Inl (InconsistentState ''Can only add a comand to the current focus'')
   \<and> \<not> running (snd (addCommand cmd_B False stm_root))
   \<and> trace (snd (addCommand cmd_B False stm_root)) =
       [ResetCoq, CoqDied ''Inconsistent state: Can only add a comand to the current focus'', CoqtopDispose]"
proof -
  have f: "focusedSentence stm_root = Some 0" and c: "callbacks stm_root"
    by (simp_all add: stm_root_def)
  have p: "\<not> positionIsEqual (range_end (textRange (store stm_root 0))) (range_start (cmd_range cmd_B))"
    by (simp add: stm_root_def newRoot_def cmd_B_def positionIsEqual_def)
  have t: "trace stm_root = [ResetCoq]" by (simp add: stm_root_def)
  from addCommand_off_focus[OF f c p, of False] t show ?thesis by simp
qed

section \<open>C7: the backend closes\<close>

text \<open>
  On a running state machine a closure with a non-empty error disposes the state machine
  and then reads \<^verbatim>\<open>this.callbacks\<close>, which \<^verbatim>\<open>dispose\<close> has just set to \<^verbatim>\<open>undefined\<close>: the
  handler ends in a \<^verbatim>\<open>TypeError\<close>.
\<close>

lemma onCoqClosed_running_error:
  "running s \<Longrightarrow> err \<noteq> [] \<Longrightarrow> onCoqClosed (Some err) s = (Inl TypeError, dispose s)"
  by (simp add: onCoqClosed_def callback_def dispose_def emit_def Let_def)

text \<open>
  Claim C7, evaluated where it fails. After the linear advance of two sentences the backend
  closes with the error \<^verbatim>\<open>coqtop died\<close>: the state machine is disposed, the handler throws a
  \<^verbatim>\<open>TypeError\<close>, the trace grows by the disposal of the transport only, and \<^verbatim>\<open>coqDied\<close> is
  not invoked with the error, as the claim says it is.
\<close>

theorem onCoqClosed_loses_coqDied:
  "onCoqClosed (Some ''coqtop died'') stm_AB = (Inl TypeError, dispose stm_AB)
   \<and> trace (dispose stm_AB) = trace stm_AB @ [CoqtopDispose]
   \<and> CoqDied ''coqtop died'' \<notin> set (trace (snd (onCoqClosed (Some ''coqtop died'') stm_AB)))"
proof -
  have "running stm_AB" by (simp add: stm_AB_def)
  then have "onCoqClosed (Some ''coqtop died'') stm_AB = (Inl TypeError, dispose stm_AB)"
    by (simp add: onCoqClosed_running_error)
  then show ?thesis by (simp add: dispose_def emit_def stm_AB_def)
qed

theorem onCoqClosed_loses_coqDied_witness:
  "fst (onCoqClosed (Some ''coqtop died'') stm_AB) = Inl TypeError
   \<and> snd (onCoqClosed (Some ''coqtop died'') stm_AB) = dispose stm_AB"
  using onCoqClosed_loses_coqDied by simp

text \<open>The silent half of the claim holds.\<close>

lemma onCoqClosed_silent:
  "\<not> truthy_string err \<or> \<not> running s \<Longrightarrow> onCoqClosed err s = (Inr (), s)"
  by (auto simp: onCoqClosed_def)

section \<open>C6: rewinding to a sentence\<close>

text \<open>
  Claim C6. Let the state machine be undisposed, its tree hold every sentence object once,
  and its index mirror the tree. For a sentence \<open>newLast\<close> live in the tree, \<^verbatim>\<open>rewindTo\<close>
  returns normally; afterwards the focused and the last sentence are \<open>newLast\<close>, which is
  still live and has no descendants; the live sentences are those of before without the
  former descendants of \<open>newLast\<close>; \<^verbatim>\<open>clearSentence\<close> was invoked with the range of each
  removed sentence, in order; the state id of each removed sentence is no longer indexed;
  and the index mirrors the tree again.
\<close>

theorem rewindTo_spec:
  assumes cb: "callbacks s" and idx: "sentences s = Some m" and rt: "root s = Some t"
    and dist: "distinct (preorder t)" and lv: "newLast \<in> live s"
    and agree: "index_mirrors_tree s"
  shows "\<exists>s'. rewindTo (Some newLast) s = (Inr (), s')
           \<and> focusedSentence s' = Some newLast \<and> lastSentence s' = Some newLast
           \<and> sentence_descendants newLast s' = []
           \<and> newLast \<in> live s'
           \<and> live s' = live s - set (sentence_descendants newLast s)
           \<and> trace s' = trace s @ cleared s (sentence_descendants newLast s)
           \<and> (\<exists>m'. sentences s' = Some m'
                  \<and> (\<forall>x\<in>set (sentence_descendants newLast s). m' (stateId (store s x)) = None))
           \<and> index_mirrors_tree s'"
proof -
  let ?D = "sentence_descendants newLast s"
  let ?m' = "\<lambda>k. if k \<in> (\<lambda>x. stateId (store s x)) ` set ?D then None else m k"
  let ?s' = "s\<lparr> sentences := Some ?m', trace := trace s @ cleared s ?D,
                 root := Some (truncate_tree newLast t),
                 lastSentence := Some newLast, focusedSentence := Some newLast \<rparr>"
  have D: "?D = descendants_of newLast t" using rt by (simp add: sentence_descendants_def)
  have run: "rewindTo (Some newLast) s = (Inr (), ?s')"
    using deleteSentences_ok[OF cb idx, of ?D] rt by (simp add: rewindTo_def)
  have live': "live ?s' = live s - set ?D"
    using rt dist D by (auto simp: live_def preorder_truncate)
  have desc': "sentence_descendants newLast ?s' = []"
    by (simp add: sentence_descendants_def descendants_of_truncate)
  have self: "newLast \<notin> set ?D" using D dist self_not_descendant by simp
  have sub: "set ?D \<subseteq> live s" using D rt descendants_of_subset by (simp add: live_def)
  from agree idx have ag: "\<And>k x. (m k = Some x) = (x \<in> live s \<and> stateId (store s x) = k)"
    by (simp add: index_mirrors_tree_def)
  have "(?m' k = Some x) = (x \<in> live ?s' \<and> stateId (store ?s' x) = k)" for k x
  proof
    assume a: "?m' k = Some x"
    then have k: "k \<notin> (\<lambda>x. stateId (store s x)) ` set ?D" and mk: "m k = Some x"
      by (auto split: if_splits)
    from mk ag have "x \<in> live s" "stateId (store s x) = k" by auto
    with k live' show "x \<in> live ?s' \<and> stateId (store ?s' x) = k" by auto
  next
    assume b: "x \<in> live ?s' \<and> stateId (store ?s' x) = k"
    with live' have x: "x \<in> live s" "x \<notin> set ?D" "stateId (store s x) = k" by auto
    have "k \<notin> (\<lambda>x. stateId (store s x)) ` set ?D"
    proof
      assume "k \<in> (\<lambda>x. stateId (store s x)) ` set ?D"
      then obtain y where y: "y \<in> set ?D" "stateId (store s y) = k" by auto
      with sub have "m k = Some y" using ag by auto
      moreover from x have "m k = Some x" using ag by auto
      ultimately show False using x y by simp
    qed
    with x ag show "?m' k = Some x" by auto
  qed
  then have agree': "index_mirrors_tree ?s'" by (simp add: index_mirrors_tree_def)
  have "newLast \<in> live ?s'" using live' lv self by simp
  with run live' desc' agree' show ?thesis by (intro exI[of _ ?s']) auto
qed

lemma stm_AB_mirrors: "index_mirrors_tree stm_AB"
  by (auto simp: index_mirrors_tree_def stm_AB_def live_def newRoot_def sentence_A_def sentence_B_def
      split: if_splits)

theorem rewindTo_witness:
  "fst (rewindTo (Some 1) stm_AB) = Inr ()
   \<and> focusedSentence (snd (rewindTo (Some 1) stm_AB)) = Some 1
   \<and> lastSentence (snd (rewindTo (Some 1) stm_AB)) = Some 1
   \<and> sentence_descendants 1 (snd (rewindTo (Some 1) stm_AB)) = []
   \<and> live (snd (rewindTo (Some 1) stm_AB)) = {0, 1}
   \<and> trace (snd (rewindTo (Some 1) stm_AB)) = trace stm_AB @ [ClearSentence (Range (Position 0 2) (Position 0 4))]
   \<and> index_mirrors_tree (snd (rewindTo (Some 1) stm_AB))"
proof -
  have cb: "callbacks stm_AB" and idx: "sentences stm_AB = Some [1 \<mapsto> 0, 2 \<mapsto> 1, 3 \<mapsto> 2]"
    and rt: "root stm_AB = Some (Node 0 [Node 1 [Node 2 []]])"
    by (simp_all add: stm_AB_def)
  have dist: "distinct (preorder (Node 0 [Node 1 [Node 2 []]]))" by simp
  have lv: "1 \<in> live stm_AB" by (simp add: live_def stm_AB_def)
  have D: "sentence_descendants 1 stm_AB = [2]"
    by (simp add: sentence_descendants_def stm_AB_def descendants_of_def descendants_def)
  have L: "live stm_AB = {0, 1, 2}" by (auto simp: live_def stm_AB_def)
  from rewindTo_spec[OF cb idx rt dist lv stm_AB_mirrors] obtain s' where
    s': "rewindTo (Some 1) stm_AB = (Inr (), s')" "focusedSentence s' = Some 1" "lastSentence s' = Some 1"
      "sentence_descendants 1 s' = []" "live s' = live stm_AB - set (sentence_descendants 1 stm_AB)"
      "trace s' = trace stm_AB @ cleared stm_AB (sentence_descendants 1 stm_AB)" "index_mirrors_tree s'"
    by blast
  have C: "cleared stm_AB [2] = [ClearSentence (Range (Position 0 2) (Position 0 4))]"
    by (simp add: cleared_def stm_AB_def sentence_B_def)
  have "{0, 1, 2} - {2} = {0, 1::nat}" by auto
  with s' D L C show ?thesis by simp
qed

section \<open>Draining the feedback buffer\<close>

lemma transition_fields [simp]:
  "stateId (transition st x) = stateId x"
  "textRange (transition st x) = textRange x"
  "commandText (transition st x) = commandText x"
  by (simp_all add: transition_def)

lemma feedback_store_fields:
  "stateId (feedback_store m fs st r) = stateId (st r)
   \<and> textRange (feedback_store m fs st r) = textRange (st r)
   \<and> commandText (feedback_store m fs st r) = commandText (st r)"
  by (induction fs arbitrary: st) (auto split: option.splits)

lemma applyFeedback_ok:
  assumes "callbacks s" "sentences s = Some m"
  shows "applyFeedback fs s =
     (Inr (), s\<lparr> store := feedback_store m fs (store s),
                 trace := trace s @ feedback_events m (store s) fs \<rparr>)"
  using assms
proof (induction fs arbitrary: s)
  case Nil
  then show ?case by simp
next
  case (Cons f fs)
  show ?case
  proof (cases "m (fb_stateId f)")
    case None
    with Cons show ?thesis by simp
  next
    case (Some r)
    let ?st = "(store s)(r := transition (fb_status f) (store s r))"
    let ?s2 = "s\<lparr> store := ?st,
                   trace := trace s @ [SentenceStatusUpdate (textRange (store s r))
                                         (status (transition (fb_status f) (store s r)))] \<rparr>"
    have cb: "callbacks ?s2" and ix: "sentences ?s2 = Some m"
      using Cons.prems by simp_all
    have "applyFeedback (f # fs) s = applyFeedback fs ?s2"
      using Cons.prems Some by (simp add: callback_def Let_def updateStatus_def emit_def)
    also have "\<dots> = (Inr (), ?s2\<lparr> store := feedback_store m fs (store ?s2),
                 trace := trace ?s2 @ feedback_events m (store ?s2) fs \<rparr>)"
      by (rule Cons.IH[OF cb ix])
    finally show ?thesis using Some by simp
  qed
qed

lemma applyBufferedFeedback_ok:
  assumes "callbacks s" "sentences s = Some m" "bufferedFeedback s = Some buffered"
  shows "applyBufferedFeedback s =
     (Inr (), s\<lparr> store := feedback_store m buffered (store s),
                 trace := trace s @ feedback_events m (store s) buffered,
                 bufferedFeedback := Some [] \<rparr>)"
  using assms applyFeedback_ok[OF assms(1,2), of buffered]
  by (simp add: applyBufferedFeedback_def)

section \<open>Adding a child\<close>

lemma ref_add_child: "ref (add_child p n t) = ref t"
  by (cases t) simp

lemma first_some_const:
  "first_some (map (\<lambda>c. if P c then Some v else None) ts) = (if \<exists>c\<in>set ts. P c then Some v else None)"
  by (induction ts) auto

lemma preorder_add_child:
  "set (preorder (add_child p n t)) = (if p \<in> set (preorder t) then insert n (set (preorder t)) else set (preorder t))"
proof (induction t)
  case (Node x ts)
  show ?case
  proof (cases "x = p")
    case True
    then show ?thesis by auto
  next
    case False
    have "set (concat (map preorder (map (add_child p n) ts)))
          = (\<Union>c\<in>set ts. set (preorder (add_child p n c)))" by auto
    also have "\<dots> = (\<Union>c\<in>set ts. (if p \<in> set (preorder c) then insert n (set (preorder c)) else set (preorder c)))"
      using Node.IH by simp
    finally show ?thesis using False by auto
  qed
qed

lemma getParent_add_child:
  "n \<notin> set (preorder t) \<Longrightarrow>
   getParent n (add_child p n t) = (if p \<in> set (preorder t) then Some p else None)"
proof (induction t)
  case (Node x ts)
  show ?case
  proof (cases "x = p")
    case True
    then show ?thesis by simp
  next
    case False
    from Node.prems have nr: "n \<notin> ref ` set ts"
      using preorder_nonempty by fastforce
    have ih: "\<And>c. c \<in> set ts \<Longrightarrow>
        getParent n (add_child p n c) = (if p \<in> set (preorder c) then Some p else None)"
      using Node.IH Node.prems by auto
    have "map (getParent n) (map (add_child p n) ts)
          = map (\<lambda>c. if p \<in> set (preorder c) then Some p else None) ts"
      using ih by simp
    then have "first_some (map (getParent n) (map (add_child p n) ts))
          = (if \<exists>c\<in>set ts. p \<in> set (preorder c) then Some p else None)"
      by (simp only: first_some_const)
    with False nr show ?thesis by (auto simp: ref_add_child image_iff)
  qed
qed

section \<open>More example states are reached\<close>

lemma zero_rooted_reached:
  assumes "reset_reply (replies 0) = 0" "add_reply (replies 1) = AddValue 2 None"
  shows "addCommand cmd_A False (snd (validateState True (new_STM replies))) = (Inr (1, False), zero_rooted replies)"
  using assms
  by (simp add: zero_rooted_def validateState_def new_STM_def initialize_def await_def emit_def Let_def
      addCommand_def addCommand_try_def addCommand_value_def Sentence_add_def
      applyBufferedFeedback_def updateStatus_def transition_def positionIsEqual_def positionIsAfterOrEqual_def
      cmd_A_def sentence_A_def newRoot_def fun_upd_twist)

lemma linear_advance_reached:
  assumes "reset_reply (replies 0) = 1" "add_reply (replies 1) = AddValue 2 None"
    "add_reply (replies 2) = AddValue 3 None"
  shows "validateState True (new_STM replies) = (Inr True, stm_root\<lparr> coqtop_replies := replies \<rparr>)"
    and "addCommand cmd_A False (stm_root\<lparr> coqtop_replies := replies \<rparr>)
          = (Inr (1, False), stm_A\<lparr> coqtop_replies := replies \<rparr>)"
    and "addCommand cmd_B False (stm_A\<lparr> coqtop_replies := replies \<rparr>)
          = (Inr (2, False), stm_AB\<lparr> coqtop_replies := replies \<rparr>)"
  using assms
  by (simp_all add: stm_root_def stm_A_def stm_AB_def validateState_def new_STM_def await_def emit_def
      initialize_def Let_def addCommand_def addCommand_try_def addCommand_value_def Sentence_add_def
      applyBufferedFeedback_def updateStatus_def transition_def positionIsEqual_def positionIsAfterOrEqual_def
      cmd_A_def cmd_B_def sentence_A_def sentence_B_def newRoot_def fun_upd_twist)

section \<open>C2: an accepted add\<close>

text \<open>The state an accepted add leaves, in closed form.\<close>

lemma addCommand_ok:
  assumes cb: "callbacks s" and idx: "sentences s = Some m" and buf: "bufferedFeedback s = Some buffered"
    and foc: "focusedSentence s = Some parent" and last: "lastSentence s = Some l"
    and lfresh: "l \<noteq> next_ref s"
    and adj: "positionIsEqual (range_end (textRange (store s parent))) (range_start (cmd_range command))"
    and rep: "add_reply (coqtop_replies s (coqtop_sent s)) = AddValue sid usid"
    and st: "st = (store s)(next_ref s := \<lparr> stateId = sid, commandText = cmd_text command,
                                   textRange = cmd_range command, status = ProcessingInput \<rparr>)"
    and st': "st' = feedback_store (m(sid \<mapsto> next_ref s)) buffered st"
  shows "addCommand command verbose s =
    (Inr (next_ref s, usid \<noteq> None),
     s\<lparr> store := st'(next_ref s := transition ProcessingInput (st' (next_ref s))),
        next_ref := Suc (next_ref s),
        root := map_option (add_child parent (next_ref s)) (root s),
        sentences := Some (m(sid \<mapsto> next_ref s)),
        bufferedFeedback := Some [],
        lastSentence :=
          (if positionIsAfterOrEqual (range_start (cmd_range command)) (range_end (textRange (store s l)))
           then Some (next_ref s) else Some l),
        focusedSentence :=
          (case usid of None \<Rightarrow> Some (next_ref s)
           | Some u \<Rightarrow> if u = 0 then Some (next_ref s) else (m(sid \<mapsto> next_ref s)) u),
        coqtop_sent := coqtop_sent s + 1,
        trace := trace s
          @ [CoqAddCommand (cmd_text command) (version s) (stateId (store s parent)) verbose]
          @ feedback_events (m(sid \<mapsto> next_ref s)) st buffered \<rparr>)"
proof -
  let ?new = "next_ref s"
  let ?req = "CoqAddCommand (cmd_text command) (version s) (stateId (store s parent)) verbose"
  let ?s1 = "(emit ?req s)\<lparr> coqtop_sent := coqtop_sent s + 1 \<rparr>"
  let ?m' = "m(sid \<mapsto> ?new)"
  let ?s2 = "?s1\<lparr> store := st, next_ref := Suc ?new,
                   root := map_option (add_child parent ?new) (root s) \<rparr>"
  let ?s2' = "?s2\<lparr> sentences := Some ?m' \<rparr>"
  have aw: "await ?req s = (coqtop_replies s (coqtop_sent s), ?s1)" by (simp add: await_def)
  have sa: "Sentence_add parent (cmd_text command) sid (cmd_range command) ?s1 = (?new, ?s2)"
    by (simp add: Sentence_add_def emit_def Let_def st)
  have fb: "applyBufferedFeedback ?s2' =
     (Inr (), ?s2'\<lparr> store := st', trace := trace ?s2' @ feedback_events ?m' st buffered,
                 bufferedFeedback := Some [] \<rparr>)"
    using applyBufferedFeedback_ok[of ?s2' ?m' buffered] cb buf by (simp add: emit_def st')
  have rl: "textRange (st' l) = textRange (store s l)"
    and rn: "textRange (st' ?new) = cmd_range command"
    using lfresh by (simp_all add: feedback_store_fields st st')
  have sn: "stateId (st ?new) = sid" by (simp add: st)
  have val: "addCommand_value parent command sid usid ?s1 = (Inr (?new, usid \<noteq> None),
     s\<lparr> store := st'(?new := transition ProcessingInput (st' ?new)),
        next_ref := Suc ?new,
        root := map_option (add_child parent ?new) (root s),
        sentences := Some ?m',
        bufferedFeedback := Some [],
        lastSentence :=
          (if positionIsAfterOrEqual (range_start (cmd_range command)) (range_end (textRange (store s l)))
           then Some ?new else Some l),
        focusedSentence :=
          (case usid of None \<Rightarrow> Some ?new | Some u \<Rightarrow> if u = 0 then Some ?new else ?m' u),
        coqtop_sent := coqtop_sent s + 1,
        trace := trace s @ [?req] @ feedback_events ?m' st buffered \<rparr>)"
    unfolding addCommand_value_def sa
    using idx fb last lfresh rl rn sn
    by (cases usid) (auto simp: emit_def updateStatus_def Let_def intro!: STM.equality)
  show ?thesis
    using foc adj rep aw val by (simp add: addCommand_def addCommand_try_def)
qed

text \<open>A sentence is in \<^verbatim>\<open>Error\<close> after a drain only if it was before, or a record applied to it says so.\<close>

lemma feedback_store_status:
  "status (feedback_store m fs st r) = Error \<Longrightarrow>
   status (st r) = Error \<or> (\<exists>f\<in>set fs. m (fb_stateId f) = Some r \<and> fb_status f = Error)"
proof (induction fs arbitrary: st)
  case Nil
  then show ?case by simp
next
  case (Cons f fs)
  show ?case
  proof (cases "m (fb_stateId f)")
    case None
    with Cons show ?thesis by auto
  next
    case (Some x)
    with Cons.prems have "status (feedback_store m fs (st(x := transition (fb_status f) (st x))) r) = Error"
      by simp
    from Cons.IH[OF this] Some show ?thesis
      by (auto simp: transition_def split: if_splits)
  qed
qed

text \<open>
  What an accepted add does. Let the state machine be undisposed and initialized, with the
  focused sentence \<open>parent\<close> live in the tree, the command starting at its end, and the next
  object reference unused. When the backend answers the add with \<open>AddValue sid usid\<close>,
  \<^verbatim>\<open>addCommand\<close> returns a new sentence object; it is a child of \<open>parent\<close> and live, it carries
  the state id, text and range of the command, and the index maps \<open>sid\<close> to it; the feedback
  buffer is empty, each buffered record with an indexed state id having been reported to
  \<^verbatim>\<open>sentenceStatusUpdate\<close>; the status of the new sentence is \<^verbatim>\<open>ProcessingInput\<close>, unless the
  drain has put it in \<^verbatim>\<open>Error\<close>, which only a buffered record for it that reports \<^verbatim>\<open>Error\<close>
  does; \<^verbatim>\<open>lastSentence\<close> is the new sentence exactly when the command starts at or after the
  end of the previous last sentence, which stays the last one otherwise; the result says
  \<^verbatim>\<open>unfocused\<close> exactly when the answer has an unfocused state id; and the focused sentence
  is the one indexed by the unfocused state id when that id is present and not 0, and the
  new sentence when it is absent or 0.
\<close>

lemma addCommand_value_spec:
  assumes cb: "callbacks s" and idx: "sentences s = Some m" and buf: "bufferedFeedback s = Some buffered"
    and foc: "focusedSentence s = Some parent" and last: "lastSentence s = Some l"
    and rt: "root s = Some t" and plive: "parent \<in> set (preorder t)"
    and fresh: "next_ref s \<notin> set (preorder t)" and lfresh: "l \<noteq> next_ref s"
    and adj: "positionIsEqual (range_end (textRange (store s parent))) (range_start (cmd_range command))"
    and rep: "add_reply (coqtop_replies s (coqtop_sent s)) = AddValue sid usid"
  shows "fst (addCommand command verbose s) = Inr (next_ref s, usid \<noteq> None)
    \<and> live (snd (addCommand command verbose s)) = insert (next_ref s) (live s)
    \<and> sentence_parent (next_ref s) (snd (addCommand command verbose s)) = Some parent
    \<and> stateId (store (snd (addCommand command verbose s)) (next_ref s)) = sid
    \<and> commandText (store (snd (addCommand command verbose s)) (next_ref s)) = cmd_text command
    \<and> textRange (store (snd (addCommand command verbose s)) (next_ref s)) = cmd_range command
    \<and> status (store (snd (addCommand command verbose s)) (next_ref s)) \<in> {ProcessingInput, Error}
    \<and> ((\<forall>f\<in>set buffered. (m(sid \<mapsto> next_ref s)) (fb_stateId f) = Some (next_ref s) \<longrightarrow> fb_status f \<noteq> Error)
         \<longrightarrow> status (store (snd (addCommand command verbose s)) (next_ref s)) = ProcessingInput)
    \<and> sentences (snd (addCommand command verbose s)) = Some (m(sid \<mapsto> next_ref s))
    \<and> bufferedFeedback (snd (addCommand command verbose s)) = Some []
    \<and> trace (snd (addCommand command verbose s)) =
         trace s @ [CoqAddCommand (cmd_text command) (version s) (stateId (store s parent)) verbose]
         @ feedback_events (m(sid \<mapsto> next_ref s))
             ((store s)(next_ref s := \<lparr> stateId = sid, commandText = cmd_text command,
                 textRange = cmd_range command, status = ProcessingInput \<rparr>)) buffered
    \<and> ((lastSentence (snd (addCommand command verbose s)) = Some (next_ref s))
         = positionIsAfterOrEqual (range_start (cmd_range command)) (range_end (textRange (store s l))))
    \<and> (\<not> positionIsAfterOrEqual (range_start (cmd_range command)) (range_end (textRange (store s l)))
         \<longrightarrow> lastSentence (snd (addCommand command verbose s)) = Some l)
    \<and> (\<forall>u. usid = Some u \<and> u \<noteq> 0 \<longrightarrow>
           focusedSentence (snd (addCommand command verbose s)) = (m(sid \<mapsto> next_ref s)) u)
    \<and> (usid = None \<or> usid = Some 0 \<longrightarrow>
           focusedSentence (snd (addCommand command verbose s)) = Some (next_ref s))"
proof -
  let ?new = "next_ref s"
  let ?st = "(store s)(?new := \<lparr> stateId = sid, commandText = cmd_text command,
                                   textRange = cmd_range command, status = ProcessingInput \<rparr>)"
  let ?st' = "feedback_store (m(sid \<mapsto> ?new)) buffered ?st"
  note ok = addCommand_ok[OF cb idx buf foc last lfresh adj rep refl refl, of verbose]
  have so: "store (snd (addCommand command verbose s)) ?new = transition ProcessingInput (?st' ?new)"
    by (simp add: ok)
  have f1: "stateId (store (snd (addCommand command verbose s)) ?new) = sid"
    and f2: "commandText (store (snd (addCommand command verbose s)) ?new) = cmd_text command"
    and f3: "textRange (store (snd (addCommand command verbose s)) ?new) = cmd_range command"
    using feedback_store_fields[of "m(sid \<mapsto> ?new)" buffered ?st ?new] by (simp_all add: so)
  have f4: "status (store (snd (addCommand command verbose s)) ?new) \<in> {ProcessingInput, Error}"
    by (simp add: so transition_def)
  have f5: "(\<forall>f\<in>set buffered. (m(sid \<mapsto> ?new)) (fb_stateId f) = Some ?new \<longrightarrow> fb_status f \<noteq> Error)
         \<longrightarrow> status (store (snd (addCommand command verbose s)) ?new) = ProcessingInput"
  proof
    assume a: "\<forall>f\<in>set buffered. (m(sid \<mapsto> ?new)) (fb_stateId f) = Some ?new \<longrightarrow> fb_status f \<noteq> Error"
    have "status (?st' ?new) \<noteq> Error"
    proof
      assume "status (?st' ?new) = Error"
      from feedback_store_status[OF this] a show False by auto
    qed
    then show "status (store (snd (addCommand command verbose s)) ?new) = ProcessingInput"
      by (simp add: so transition_def)
  qed
  have lv: "live (snd (addCommand command verbose s)) = insert ?new (live s)"
    using rt plive by (simp add: ok live_def preorder_add_child)
  have par: "sentence_parent ?new (snd (addCommand command verbose s)) = Some parent"
    using rt plive fresh by (simp add: ok sentence_parent_def getParent_add_child)
  have la: "(lastSentence (snd (addCommand command verbose s)) = Some ?new)
         = positionIsAfterOrEqual (range_start (cmd_range command)) (range_end (textRange (store s l)))"
    using lfresh by (simp add: ok)
  have lb: "\<not> positionIsAfterOrEqual (range_start (cmd_range command)) (range_end (textRange (store s l)))
         \<longrightarrow> lastSentence (snd (addCommand command verbose s)) = Some l"
    by (simp add: ok)
  have fo: "\<forall>u. usid = Some u \<and> u \<noteq> 0 \<longrightarrow>
           focusedSentence (snd (addCommand command verbose s)) = (m(sid \<mapsto> ?new)) u"
    by (simp add: ok)
  have fn: "usid = None \<or> usid = Some 0 \<longrightarrow>
           focusedSentence (snd (addCommand command verbose s)) = Some ?new"
    by (auto simp: ok)
  have r1: "fst (addCommand command verbose s) = Inr (?new, usid \<noteq> None)" by (simp add: ok)
  have r2: "sentences (snd (addCommand command verbose s)) = Some (m(sid \<mapsto> ?new))" by (simp add: ok)
  have r3: "bufferedFeedback (snd (addCommand command verbose s)) = Some []" by (simp add: ok)
  have r4: "trace (snd (addCommand command verbose s)) =
         trace s @ [CoqAddCommand (cmd_text command) (version s) (stateId (store s parent)) verbose]
         @ feedback_events (m(sid \<mapsto> ?new)) ?st buffered" by (simp add: ok)
  from r1 lv par f1 f2 f3 f4 f5 r2 r3 r4 la lb fo fn show ?thesis by blast
qed

text \<open>
  An accepted add that unfocuses. After \<^verbatim>\<open>A.\<close> the backend has reported state 3 as
  \<^verbatim>\<open>Processed\<close> and state 7 as \<^verbatim>\<open>Complete\<close>, both unknown and so buffered, and it answers the
  add of \<^verbatim>\<open>B.\<close> with state 3 and the unfocused state 1, the root. The new sentence is a
  child of \<^verbatim>\<open>A.\<close>, the record for state 3 is reported once and the one for state 7 dropped,
  the new sentence is the last one, and the focus is the root.
\<close>

lemma addCommand_value_example:
  "fst (addCommand cmd_B False stm_A_buffered) = Inr (2, True)
   \<and> live (snd (addCommand cmd_B False stm_A_buffered)) = {0, 1, 2}
   \<and> sentence_parent 2 (snd (addCommand cmd_B False stm_A_buffered)) = Some 1
   \<and> store (snd (addCommand cmd_B False stm_A_buffered)) 2 = sentence_B
   \<and> indexed (snd (addCommand cmd_B False stm_A_buffered)) 3 = Some 2
   \<and> bufferedFeedback (snd (addCommand cmd_B False stm_A_buffered)) = Some []
   \<and> trace (snd (addCommand cmd_B False stm_A_buffered)) =
       trace stm_A @ [CoqAddCommand ''B.'' 0 2 False,
                      SentenceStatusUpdate (Range (Position 0 2) (Position 0 4)) Processed]
   \<and> lastSentence (snd (addCommand cmd_B False stm_A_buffered)) = Some 2
   \<and> focusedSentence (snd (addCommand cmd_B False stm_A_buffered)) = Some 0"
proof -
  let ?s = stm_A_buffered
  let ?buf = "[\<lparr> fb_stateId = 3, fb_status = Processed, fb_worker = ''w'' \<rparr>,
               \<lparr> fb_stateId = 7, fb_status = Complete, fb_worker = ''w'' \<rparr>]"
  have cb: "callbacks ?s" and idx: "sentences ?s = Some [1 \<mapsto> 0, 2 \<mapsto> 1]"
    and buf: "bufferedFeedback ?s = Some ?buf" and foc: "focusedSentence ?s = Some 1"
    and last: "lastSentence ?s = Some 1" and nr: "next_ref ?s = 2" and tr: "trace ?s = trace stm_A"
    and rt: "root ?s = Some (Node 0 [Node 1 []])"
    by (simp_all add: stm_A_buffered_def stm_A_def)
  have lfresh: "1 \<noteq> next_ref ?s" by (simp add: nr)
  have adj: "positionIsEqual (range_end (textRange (store ?s 1))) (range_start (cmd_range cmd_B))"
    by (simp add: stm_A_buffered_def stm_A_def sentence_A_def cmd_B_def positionIsEqual_def)
  have rep: "add_reply (coqtop_replies ?s (coqtop_sent ?s)) = AddValue 3 (Some 1)"
    by (simp add: stm_A_buffered_def stm_A_def unfocusing_backend_def)
  note ok = addCommand_ok[OF cb idx buf foc last lfresh adj rep refl refl, of False]
  have lv: "set (preorder (add_child 1 2 (Node 0 [Node 1 []]))) = {0, 1, 2}" by auto
  have "live (snd (addCommand cmd_B False ?s)) = {0, 1, 2}"
    using lv by (simp add: ok rt nr live_def del: add_child.simps preorder.simps)
  moreover have "sentence_parent 2 (snd (addCommand cmd_B False ?s)) = Some 1"
    by (simp add: ok rt nr sentence_parent_def)
  moreover have "fst (addCommand cmd_B False ?s) = Inr (2, True)" by (simp add: ok nr)
  moreover have "store (snd (addCommand cmd_B False ?s)) 2 = sentence_B"
    by (simp add: ok nr) (simp_all add: sentence_B_def cmd_B_def transition_def)
  moreover have "indexed (snd (addCommand cmd_B False ?s)) 3 = Some 2"
    by (simp add: ok nr indexed_def)
  moreover have "bufferedFeedback (snd (addCommand cmd_B False ?s)) = Some []" by (simp add: ok)
  moreover have "trace (snd (addCommand cmd_B False ?s)) =
       trace stm_A @ [CoqAddCommand ''B.'' 0 2 False,
                      SentenceStatusUpdate (Range (Position 0 2) (Position 0 4)) Processed]"
    by (simp add: ok nr tr) (simp_all add: stm_A_buffered_def stm_A_def sentence_A_def cmd_B_def transition_def)
  moreover have "lastSentence (snd (addCommand cmd_B False ?s)) = Some 2"
    by (simp add: ok nr) (simp_all add: stm_A_buffered_def stm_A_def sentence_A_def cmd_B_def positionIsAfterOrEqual_def)
  moreover have "focusedSentence (snd (addCommand cmd_B False ?s)) = Some 0" by (simp add: ok nr)
  ultimately show ?thesis by blast
qed

text \<open>
  Claim C2, evaluated where it fails. The root is the sentence of state 0 and the backend
  answers the add of \<^verbatim>\<open>B.\<close> with state 3 and the unfocused state 0. The field is present,
  and the result of \<^verbatim>\<open>addCommand\<close> says so: \<^verbatim>\<open>unfocused\<close> is true, as
  \<^verbatim>\<open>value.unfocusedStateId == undefined\<close> decides it. But \<^verbatim>\<open>if(value.unfocusedStateId)\<close> takes
  the state id 0 for absent, so the focused sentence is not the sentence indexed by 0, the
  root, as the claim says it is: it is the new sentence.
\<close>

theorem addCommand_unfocused_zero:
  "add_reply (coqtop_replies (zero_rooted unfocus_zero_backend) (coqtop_sent (zero_rooted unfocus_zero_backend)))
     = AddValue 3 (Some 0)
   \<and> fst (addCommand cmd_B False (zero_rooted unfocus_zero_backend)) = Inr (2, True)
   \<and> indexed (snd (addCommand cmd_B False (zero_rooted unfocus_zero_backend))) 0 = Some 0
   \<and> focusedSentence (snd (addCommand cmd_B False (zero_rooted unfocus_zero_backend))) = Some 2"
proof -
  let ?s = "zero_rooted unfocus_zero_backend"
  have cb: "callbacks ?s" and idx: "sentences ?s = Some [0 \<mapsto> 0, 2 \<mapsto> 1]"
    and buf: "bufferedFeedback ?s = Some []" and foc: "focusedSentence ?s = Some 1"
    and last: "lastSentence ?s = Some 1" and nr: "next_ref ?s = 2"
    by (simp_all add: zero_rooted_def)
  have lfresh: "1 \<noteq> next_ref ?s" by (simp add: nr)
  have adj: "positionIsEqual (range_end (textRange (store ?s 1))) (range_start (cmd_range cmd_B))"
    by (simp add: zero_rooted_def sentence_A_def cmd_B_def positionIsEqual_def)
  have rep: "add_reply (coqtop_replies ?s (coqtop_sent ?s)) = AddValue 3 (Some 0)"
    by (simp add: zero_rooted_def unfocus_zero_backend_def)
  note ok = addCommand_ok[OF cb idx buf foc last lfresh adj rep refl refl, of False]
  from rep ok show ?thesis by (simp add: nr indexed_def)
qed

section \<open>C3: a failed add\<close>

lemma await_callbacks: "await e s = (rep, s') \<Longrightarrow> callbacks s' = callbacks s"
  by (auto simp: await_def emit_def)

lemma deleteSentence_callbacks: "deleteSentence x s = (r, s') \<Longrightarrow> callbacks s' = callbacks s"
  by (auto simp: deleteSentence_def callback_def emit_def split: sum.splits option.splits if_splits)

lemma deleteSentences_callbacks: "deleteSentences xs s = (r, s') \<Longrightarrow> callbacks s' = callbacks s"
proof (induction xs arbitrary: s)
  case Nil
  then show ?case by simp
next
  case (Cons x xs)
  then show ?case
    by (auto split: prod.splits sum.splits dest: deleteSentence_callbacks)
qed

lemma rewindTo_callbacks: "rewindTo n s = (r, s') \<Longrightarrow> callbacks s' = callbacks s"
  by (auto simp: rewindTo_def split: option.splits prod.splits sum.splits dest: deleteSentences_callbacks)

lemma gotoErrorFallbackState_try_callbacks:
  "gotoErrorFallbackState_try sid s = (r, s') \<Longrightarrow> callbacks s' = callbacks s"
  by (auto simp: gotoErrorFallbackState_try_def split: option.splits prod.splits EditAtResult.splits
      dest: await_callbacks rewindTo_callbacks)

lemma gotoErrorFallbackState_returns:
  "callbacks s \<Longrightarrow> fst (gotoErrorFallbackState sid s) = Inr ()"
proof -
  assume cb: "callbacks s"
  obtain r s1 where t: "gotoErrorFallbackState_try sid s = (r, s1)"
    by (cases "gotoErrorFallbackState_try sid s")
  then have "callbacks s1" using cb gotoErrorFallbackState_try_callbacks by blast
  with t show ?thesis
    by (cases r) (simp_all add: gotoErrorFallbackState_def handleInconsistentState_def callback_def)
qed

lemma rewindTo_ok:
  assumes "callbacks s" "sentences s = Some m"
  shows "rewindTo (Some r) s =
    (Inr (), s\<lparr> sentences := Some (\<lambda>k. if k \<in> (\<lambda>x. stateId (store s x)) ` set (sentence_descendants r s)
                                       then None else m k),
                trace := trace s @ cleared s (sentence_descendants r s),
                root := map_option (truncate_tree r) (root s),
                lastSentence := Some r, focusedSentence := Some r \<rparr>)"
  using deleteSentences_ok[OF assms, of "sentence_descendants r s"] by (simp add: rewindTo_def)

lemma sentence_descendants_truncate:
  "root s' = map_option (truncate_tree r) rt \<Longrightarrow> sentence_descendants r s' = []"
  by (cases rt) (simp_all add: sentence_descendants_def descendants_of_truncate)

lemma deleteSentences_trace: "deleteSentences xs s = (r, s') \<Longrightarrow> \<exists>rest. trace s' = trace s @ rest"
proof (induction xs arbitrary: s)
  case Nil
  then show ?case by simp
next
  case (Cons x xs)
  obtain r1 s1 where d: "deleteSentence x s = (r1, s1)" by (cases "deleteSentence x s")
  then have t1: "\<exists>rest. trace s1 = trace s @ rest"
    by (auto simp: deleteSentence_def callback_def emit_def split: if_splits option.splits)
  show ?case
  proof (cases r1)
    case (Inl e)
    with Cons.prems d t1 show ?thesis by simp
  next
    case (Inr u)
    with Cons.prems d have "deleteSentences xs s1 = (r, s')" by simp
    from Cons.IH[OF this] t1 show ?thesis by auto
  qed
qed

lemma rewindTo_trace: "rewindTo n s = (r, s') \<Longrightarrow> \<exists>rest. trace s' = trace s @ rest"
proof (cases n)
  case None
  assume "rewindTo n s = (r, s')"
  with None show ?thesis by (simp add: rewindTo_def)
next
  case (Some x)
  assume a: "rewindTo n s = (r, s')"
  obtain r1 s1 where d: "deleteSentences (sentence_descendants x s) s = (r1, s1)"
    by (cases "deleteSentences (sentence_descendants x s) s")
  from deleteSentences_trace[OF d] obtain rest where "trace s1 = trace s @ rest" by blast
  with a d Some show ?thesis by (cases r1) (auto simp: rewindTo_def)
qed

lemma handleInconsistentState_trace:
  "handleInconsistentState err s = (r, s') \<Longrightarrow> \<exists>rest. trace s' = trace s @ rest"
  by (auto simp: handleInconsistentState_def callback_def dispose_def emit_def split: if_splits)

lemma gotoErrorFallbackState_trace:
  assumes "sentences s = Some m"
  shows "\<exists>rest. trace (snd (gotoErrorFallbackState sid s)) = trace s @ CoqEditAt sid # rest"
proof -
  let ?s1 = "(emit (CoqEditAt sid) s)\<lparr> coqtop_sent := coqtop_sent s + 1 \<rparr>"
  have t1: "trace ?s1 = trace s @ [CoqEditAt sid]" by (simp add: emit_def)
  obtain r2 s2 where tr: "gotoErrorFallbackState_try sid s = (r2, s2)"
    by (cases "gotoErrorFallbackState_try sid s")
  have "\<exists>rest. trace s2 = trace ?s1 @ rest"
  proof (cases "editAt_reply (coqtop_replies s (coqtop_sent s))")
    case (EditAtValue nf)
    with tr assms have "rewindTo (m sid) ?s1 = (r2, s2)"
      by (simp add: gotoErrorFallbackState_try_def await_def)
    then show ?thesis by (rule rewindTo_trace)
  next
    case (EditAtFailure f)
    with tr assms show ?thesis by (auto simp: gotoErrorFallbackState_try_def await_def)
  next
    case (EditAtRejected str)
    with tr assms show ?thesis by (auto simp: gotoErrorFallbackState_try_def await_def)
  qed
  then obtain rest where r: "trace s2 = trace s @ CoqEditAt sid # rest" using t1 by auto
  show ?thesis
  proof (cases r2)
    case (Inr u)
    with tr r show ?thesis by (simp add: gotoErrorFallbackState_def)
  next
    case (Inl err)
    obtain r3 s3 where h: "handleInconsistentState err s2 = (r3, s3)"
      by (cases "handleInconsistentState err s2")
    from handleInconsistentState_trace[OF h] r obtain rest' where "trace s3 = trace s @ CoqEditAt sid # rest'"
      by auto
    with tr Inl h show ?thesis by (simp add: gotoErrorFallbackState_def)
  qed
qed

text \<open>
  What a failed add does. Let the state machine be undisposed, with a focused sentence at
  whose end the command starts, and let the backend fail the add with \<open>f\<close>. Then \<^verbatim>\<open>addCommand\<close>
  throws \<^verbatim>\<open>FailValue\<close> with the backend's message and the range \<^verbatim>\<open>positionAtRelative\<close> gives for
  the start and stop offsets, in every case. When \<open>f\<close> has no state id, or the state id 0,
  nothing else happens. When it has a state id other than 0 (and the index is defined), the
  next request is an edit-at of that state; and when moreover the state id is indexed and
  the edit-at succeeds, the state left is that of \<^verbatim>\<open>rewindTo\<close> for the indexed sentence: it is
  the focused and the last sentence, it has no descendants, \<^verbatim>\<open>clearSentence\<close> was invoked for
  each sentence removed, and the state machine is still running.
\<close>

lemma addCommand_failure_spec:
  assumes foc: "focusedSentence s = Some parent" and cb: "callbacks s"
    and adj: "positionIsEqual (range_end (textRange (store s parent))) (range_start (cmd_range command))"
    and rep: "add_reply (coqtop_replies s (coqtop_sent s)) = AddFailure f"
    and req: "req = CoqAddCommand (cmd_text command) (version s) (stateId (store s parent)) verbose"
  shows "fst (addCommand command verbose s) = Inl (FailValue (fail_message f) (fail_range command f))
    \<and> (fail_stateId f = None \<or> fail_stateId f = Some 0 \<longrightarrow>
          snd (addCommand command verbose s) = requested [req] s)
    \<and> (\<forall>sid. fail_stateId f = Some sid \<and> sid \<noteq> 0 \<and> sentences s \<noteq> None \<longrightarrow>
          (\<exists>rest. trace (snd (addCommand command verbose s)) = trace s @ [req, CoqEditAt sid] @ rest))
    \<and> (\<forall>sid r newFocus. fail_stateId f = Some sid \<and> sid \<noteq> 0 \<and> indexed s sid = Some r
          \<and> editAt_reply (coqtop_replies s (coqtop_sent s + 1)) = EditAtValue newFocus \<longrightarrow>
          snd (addCommand command verbose s) = snd (rewindTo (Some r) (requested [req, CoqEditAt sid] s))
          \<and> focusedSentence (snd (addCommand command verbose s)) = Some r
          \<and> lastSentence (snd (addCommand command verbose s)) = Some r
          \<and> sentence_descendants r (snd (addCommand command verbose s)) = []
          \<and> running (snd (addCommand command verbose s)) = running s
          \<and> trace (snd (addCommand command verbose s)) =
              trace s @ [req, CoqEditAt sid] @ cleared s (sentence_descendants r s))"
proof -
  let ?s1 = "requested [req] s"
  have s1: "?s1 = (emit req s)\<lparr> coqtop_sent := coqtop_sent s + 1 \<rparr>"
    by (simp add: requested_def emit_def)
  have tried: "addCommand_try command verbose s = (Inl (Failure f), ?s1)"
    using foc adj rep by (simp add: addCommand_try_def await_def requested_def emit_def req)
  have cb1: "callbacks ?s1" using cb by (simp add: requested_def)
  have ac: "addCommand command verbose s =
      (case (case fallback_stateId (Failure f) of
               Some sid \<Rightarrow> gotoErrorFallbackState sid ?s1
             | None \<Rightarrow> (Inr (), ?s1)) of
         (Inl e, s2) \<Rightarrow> (Inl e, s2)
       | (Inr u, s2) \<Rightarrow> (Inl (FailValue (fail_message f) (fail_range command f)), s2))"
    unfolding fail_range_def by (simp add: addCommand_def tried del: fallback_stateId.simps)
  have p1: "fst (addCommand command verbose s) = Inl (FailValue (fail_message f) (fail_range command f))"
  proof (cases "fallback_stateId (Failure f)")
    case None
    with ac show ?thesis by simp
  next
    case (Some sid)
    from gotoErrorFallbackState_returns[OF cb1, of sid]
    obtain s2 where "gotoErrorFallbackState sid ?s1 = (Inr (), s2)"
      by (cases "gotoErrorFallbackState sid ?s1") auto
    with ac Some show ?thesis by simp
  qed
  have p2: "fail_stateId f = None \<or> fail_stateId f = Some 0 \<longrightarrow>
          snd (addCommand command verbose s) = ?s1"
    using ac by auto
  have goto: "snd (addCommand command verbose s) = snd (gotoErrorFallbackState sid ?s1)"
    if "fail_stateId f = Some sid" "sid \<noteq> 0" for sid
  proof -
    from that have fb: "fallback_stateId (Failure f) = Some sid" by simp
    from gotoErrorFallbackState_returns[OF cb1, of sid]
    obtain s2 where "gotoErrorFallbackState sid ?s1 = (Inr (), s2)"
      by (cases "gotoErrorFallbackState sid ?s1") auto
    with ac fb show ?thesis by simp
  qed
  have p3: "\<forall>sid. fail_stateId f = Some sid \<and> sid \<noteq> 0 \<and> sentences s \<noteq> None \<longrightarrow>
          (\<exists>rest. trace (snd (addCommand command verbose s)) = trace s @ [req, CoqEditAt sid] @ rest)"
  proof (intro allI impI)
    fix sid
    assume a: "fail_stateId f = Some sid \<and> sid \<noteq> 0 \<and> sentences s \<noteq> None"
    then obtain m where "sentences ?s1 = Some m" by (auto simp: requested_def)
    from gotoErrorFallbackState_trace[OF this, of sid] obtain rest where
      "trace (snd (gotoErrorFallbackState sid ?s1)) = trace ?s1 @ CoqEditAt sid # rest" by blast
    with goto a show "\<exists>rest. trace (snd (addCommand command verbose s)) = trace s @ [req, CoqEditAt sid] @ rest"
      by (simp add: requested_def)
  qed
  have p4: "\<forall>sid r newFocus. fail_stateId f = Some sid \<and> sid \<noteq> 0 \<and> indexed s sid = Some r
          \<and> editAt_reply (coqtop_replies s (coqtop_sent s + 1)) = EditAtValue newFocus \<longrightarrow>
          snd (addCommand command verbose s) = snd (rewindTo (Some r) (requested [req, CoqEditAt sid] s))
          \<and> focusedSentence (snd (addCommand command verbose s)) = Some r
          \<and> lastSentence (snd (addCommand command verbose s)) = Some r
          \<and> sentence_descendants r (snd (addCommand command verbose s)) = []
          \<and> running (snd (addCommand command verbose s)) = running s
          \<and> trace (snd (addCommand command verbose s)) =
              trace s @ [req, CoqEditAt sid] @ cleared s (sentence_descendants r s)"
  proof (intro allI impI)
    fix sid r newFocus
    assume a: "fail_stateId f = Some sid \<and> sid \<noteq> 0 \<and> indexed s sid = Some r
          \<and> editAt_reply (coqtop_replies s (coqtop_sent s + 1)) = EditAtValue newFocus"
    let ?s2 = "requested [req, CoqEditAt sid] s"
    from a obtain m where m: "sentences s = Some m" "m sid = Some r"
      by (auto simp: indexed_def split: option.splits)
    have aw: "await (CoqEditAt sid) ?s1 = (coqtop_replies s (coqtop_sent s + 1), ?s2)"
      by (simp add: await_def requested_def emit_def)
    have ix1: "sentences ?s1 = Some m" using m by (simp add: requested_def)
    have tr: "gotoErrorFallbackState_try sid ?s1 = rewindTo (Some r) ?s2"
      unfolding gotoErrorFallbackState_try_def using ix1 aw a m by simp
    have cb2: "callbacks ?s2" and ix2: "sentences ?s2 = Some m"
      using cb m by (simp_all add: requested_def)
    note rw = rewindTo_ok[OF cb2 ix2, of r]
    have D: "sentence_descendants r ?s2 = sentence_descendants r s"
      by (simp add: sentence_descendants_def requested_def)
    have C: "cleared ?s2 = cleared s" by (simp add: cleared_def requested_def fun_eq_iff)
    have g: "gotoErrorFallbackState sid ?s1 = rewindTo (Some r) ?s2"
      by (simp add: gotoErrorFallbackState_def tr rw)
    with goto a have e: "snd (addCommand command verbose s) = snd (rewindTo (Some r) ?s2)" by simp
    have "root (snd (rewindTo (Some r) ?s2)) = map_option (truncate_tree r) (root ?s2)"
      by (simp add: rw)
    then have "sentence_descendants r (snd (rewindTo (Some r) ?s2)) = []"
      by (rule sentence_descendants_truncate)
    with e show "snd (addCommand command verbose s) = snd (rewindTo (Some r) ?s2)
          \<and> focusedSentence (snd (addCommand command verbose s)) = Some r
          \<and> lastSentence (snd (addCommand command verbose s)) = Some r
          \<and> sentence_descendants r (snd (addCommand command verbose s)) = []
          \<and> running (snd (addCommand command verbose s)) = running s
          \<and> trace (snd (addCommand command verbose s)) =
              trace s @ [req, CoqEditAt sid] @ cleared s (sentence_descendants r s)"
      by (simp add: rw D C) (simp add: requested_def)
  qed
  from p1 p2 p3 p4 show ?thesis by blast
qed

text \<open>
  The failed add of section 8 of the specification: after the linear advance the backend
  fails \<^verbatim>\<open>Bad.\<close> with fallback state 2; the edit-at of state 2 is sent, the sentence \<^verbatim>\<open>B.\<close> is
  cleared, the sentence \<^verbatim>\<open>A.\<close> of state 2 has the focus, and \<^verbatim>\<open>FailValue\<close> is thrown with the
  range 0:4-0:7.
\<close>

lemma addCommand_failure_example:
  "fst (addCommand cmd_bad True (stm_AB\<lparr> coqtop_replies := failing_backend \<rparr>))
     = Inl (FailValue ''syntax'' (Range (Position 0 4) (Position 0 7)))
   \<and> focusedSentence (snd (addCommand cmd_bad True (stm_AB\<lparr> coqtop_replies := failing_backend \<rparr>))) = Some 1
   \<and> lastSentence (snd (addCommand cmd_bad True (stm_AB\<lparr> coqtop_replies := failing_backend \<rparr>))) = Some 1
   \<and> sentence_descendants 1 (snd (addCommand cmd_bad True (stm_AB\<lparr> coqtop_replies := failing_backend \<rparr>))) = []
   \<and> running (snd (addCommand cmd_bad True (stm_AB\<lparr> coqtop_replies := failing_backend \<rparr>)))
   \<and> trace (snd (addCommand cmd_bad True (stm_AB\<lparr> coqtop_replies := failing_backend \<rparr>)))
       = trace stm_AB @ [CoqAddCommand ''Bad.'' 0 3 True, CoqEditAt 2,
                         ClearSentence (Range (Position 0 2) (Position 0 4))]"
proof -
  let ?s = "stm_AB\<lparr> coqtop_replies := failing_backend \<rparr>"
  have foc: "focusedSentence ?s = Some 2" and cb: "callbacks ?s" and run: "running ?s"
    by (simp_all add: stm_AB_def)
  have adj: "positionIsEqual (range_end (textRange (store ?s 2))) (range_start (cmd_range cmd_bad))"
    by (simp add: stm_AB_def sentence_B_def cmd_bad_def positionIsEqual_def)
  have rep: "add_reply (coqtop_replies ?s (coqtop_sent ?s)) = AddFailure (syntax_failure (Some 2))"
    by (simp add: stm_AB_def failing_backend_def)
  have ix: "indexed ?s 2 = Some 1" by (simp add: indexed_def stm_AB_def)
  have ea: "editAt_reply (coqtop_replies ?s (coqtop_sent ?s + 1)) = EditAtValue None"
    by (simp add: failing_backend_def)
  have fs: "fail_stateId (syntax_failure (Some 2)) = Some 2" by (simp add: syntax_failure_def)
  have fr: "fail_range cmd_bad (syntax_failure (Some 2)) = Range (Position 0 4) (Position 0 7)"
    by (simp add: fail_range_def cmd_bad_def syntax_failure_def eval_nat_numeral)
  have fm: "fail_message (syntax_failure (Some 2)) = ''syntax''" by (simp add: syntax_failure_def)
  have D: "sentence_descendants 1 ?s = [2]"
    by (simp add: sentence_descendants_def stm_AB_def descendants_of_def descendants_def)
  have C: "cleared ?s [2] = [ClearSentence (Range (Position 0 2) (Position 0 4))]"
    by (simp add: cleared_def stm_AB_def sentence_B_def)
  have rq: "CoqAddCommand (cmd_text cmd_bad) (version ?s) (stateId (store ?s 2)) True
            = CoqAddCommand ''Bad.'' 0 3 True"
    by (simp add: cmd_bad_def stm_AB_def sentence_B_def)
  have tr: "trace ?s = trace stm_AB" by simp
  note t = addCommand_failure_spec[OF foc cb adj rep refl, of True]
  note t1 = t[THEN conjunct1]
  note t4 = t[THEN conjunct2, THEN conjunct2, THEN conjunct2, rule_format, of 2 1 None]
  from fs ix ea have pre: "fail_stateId (syntax_failure (Some 2)) = Some 2 \<and> (2::nat) \<noteq> 0
      \<and> indexed ?s 2 = Some 1
      \<and> editAt_reply (coqtop_replies ?s (coqtop_sent ?s + 1)) = EditAtValue None" by simp
  from t1 t4[OF pre] have
    "fst (addCommand cmd_bad True ?s) = Inl (FailValue (fail_message (syntax_failure (Some 2)))
        (fail_range cmd_bad (syntax_failure (Some 2))))"
    "focusedSentence (snd (addCommand cmd_bad True ?s)) = Some 1"
    "lastSentence (snd (addCommand cmd_bad True ?s)) = Some 1"
    "sentence_descendants 1 (snd (addCommand cmd_bad True ?s)) = []"
    "running (snd (addCommand cmd_bad True ?s)) = running ?s"
    "trace (snd (addCommand cmd_bad True ?s)) =
       trace ?s @ [CoqAddCommand (cmd_text cmd_bad) (version ?s) (stateId (store ?s 2)) True, CoqEditAt 2]
       @ cleared ?s (sentence_descendants 1 ?s)"
    by blast+
  then show ?thesis unfolding fr fm D C rq tr using run by simp
qed

text \<open>
  When the fallback cannot be done, because the fallback state is not indexed or the backend
  does not accept the edit-at, \<^verbatim>\<open>gotoErrorFallbackState\<close> catches the error and hands it to
  \<^verbatim>\<open>handleInconsistentState\<close>: \<^verbatim>\<open>coqDied\<close> is invoked and the state machine is disposed.
  \<^verbatim>\<open>addCommand\<close> then still throws the \<^verbatim>\<open>FailValue\<close>.
\<close>

lemma addCommand_fallback_fails:
  assumes foc: "focusedSentence s = Some parent" and cb: "callbacks s"
    and adj: "positionIsEqual (range_end (textRange (store s parent))) (range_start (cmd_range command))"
    and rep: "add_reply (coqtop_replies s (coqtop_sent s)) = AddFailure f"
    and req: "req = CoqAddCommand (cmd_text command) (version s) (stateId (store s parent)) verbose"
    and sid: "fail_stateId f = Some sid" "sid \<noteq> 0" and idx: "sentences s = Some m"
    and bad: "m sid = None
              \<or> (\<exists>g. editAt_reply (coqtop_replies s (coqtop_sent s + 1)) = EditAtFailure g)
              \<or> (\<exists>str. editAt_reply (coqtop_replies s (coqtop_sent s + 1)) = EditAtRejected str)"
  shows "fst (addCommand command verbose s) = Inl (FailValue (fail_message f) (fail_range command f))
    \<and> \<not> running (snd (addCommand command verbose s))
    \<and> (\<exists>msg. trace (snd (addCommand command verbose s))
                = trace s @ [req, CoqEditAt sid, CoqDied msg, CoqtopDispose])"
proof -
  let ?s1 = "requested [req] s"
  let ?s2 = "requested [req, CoqEditAt sid] s"
  have tried: "addCommand_try command verbose s = (Inl (Failure f), ?s1)"
    using foc adj rep by (simp add: addCommand_try_def await_def requested_def emit_def req)
  have aw: "await (CoqEditAt sid) ?s1 = (coqtop_replies s (coqtop_sent s + 1), ?s2)"
    by (simp add: await_def requested_def emit_def)
  have ix1: "sentences ?s1 = Some m" using idx by (simp add: requested_def)
  have cb2: "callbacks ?s2" using cb by (simp add: requested_def)
  have "\<exists>err. gotoErrorFallbackState_try sid ?s1 = (Inl err, ?s2)"
  proof (cases "editAt_reply (coqtop_replies s (coqtop_sent s + 1))")
    case (EditAtFailure g)
    with ix1 aw show ?thesis by (simp add: gotoErrorFallbackState_try_def)
  next
    case (EditAtRejected str)
    with ix1 aw show ?thesis by (simp add: gotoErrorFallbackState_try_def)
  next
    case (EditAtValue nf)
    with bad have "m sid = None" by simp
    with EditAtValue ix1 aw show ?thesis by (simp add: gotoErrorFallbackState_try_def rewindTo_def)
  qed
  then obtain err where tr: "gotoErrorFallbackState_try sid ?s1 = (Inl err, ?s2)" by blast
  let ?s3 = "dispose (emit (CoqDied (''Inconsistent state: '' @ toString err)) ?s2)"
  have g: "gotoErrorFallbackState sid ?s1 = (Inr (), ?s3)"
    using cb2 by (simp add: gotoErrorFallbackState_def tr handleInconsistentState_def callback_def)
  have fb: "fallback_stateId (Failure f) = Some sid" using sid by simp
  have ac: "addCommand command verbose s = (Inl (FailValue (fail_message f) (fail_range command f)), ?s3)"
    unfolding fail_range_def by (simp add: addCommand_def tried fb g del: fallback_stateId.simps)
  have "trace ?s3 = trace s @ [req, CoqEditAt sid, CoqDied (''Inconsistent state: '' @ toString err), CoqtopDispose]"
    by (simp add: dispose_def emit_def requested_def)
  moreover have "\<not> running ?s3" by (rule dispose_dead)
  ultimately show ?thesis using ac by auto
qed


section \<open>C5: focusing a sentence\<close>



















lemma stm_branched_reached: "addCommand cmd_auto False stm_jumped = (Inr (4, False), stm_branched)"
  by (simp add: stm_jumped_def stm_branched_def await_def emit_def Let_def
      addCommand_def addCommand_try_def addCommand_value_def Sentence_add_def
      applyBufferedFeedback_def updateStatus_def transition_def positionIsEqual_def positionIsAfterOrEqual_def
      cmd_auto_def proof_backend_def newRoot_def fun_upd_twist)




section \<open>C4: feedback that arrives before the add returns\<close>

text \<open>
  Claim C4, evaluated where it fails. The root is state 1 and the backend reports state 5
  as \<^verbatim>\<open>Processed\<close> before it answers the add of \<^verbatim>\<open>A.\<close> with state 5. The report is buffered;
  the add drains the buffer, which sets the new sentence to \<^verbatim>\<open>Processed\<close> and invokes
  \<^verbatim>\<open>sentenceStatusUpdate\<close> once, and then \<^verbatim>\<open>addCommand\<close> sets the status to \<^verbatim>\<open>ProcessingInput\<close>:
  the sentence is left \<^verbatim>\<open>ProcessingInput\<close>. Had the same report been delivered after the add,
  with the same single callback, the sentence would be left \<^verbatim>\<open>Processed\<close>.
\<close>

theorem buffered_status_overwritten:
  "fst (onCoqStateStatusUpdate 5 0 Processed ''worker'' (stm_root\<lparr> coqtop_replies := early_backend \<rparr>)) = Inr ()
   \<and> bufferedFeedback (snd (onCoqStateStatusUpdate 5 0 Processed ''worker'' (stm_root\<lparr> coqtop_replies := early_backend \<rparr>)))
       = Some [\<lparr> fb_stateId = 5, fb_status = Processed, fb_worker = ''worker'' \<rparr>]
   \<and> fst (addCommand cmd_A False
          (snd (onCoqStateStatusUpdate 5 0 Processed ''worker'' (stm_root\<lparr> coqtop_replies := early_backend \<rparr>))))
       = Inr (1, False)
   \<and> indexed (snd (addCommand cmd_A False
          (snd (onCoqStateStatusUpdate 5 0 Processed ''worker'' (stm_root\<lparr> coqtop_replies := early_backend \<rparr>))))) 5
       = Some 1
   \<and> trace (snd (addCommand cmd_A False
          (snd (onCoqStateStatusUpdate 5 0 Processed ''worker'' (stm_root\<lparr> coqtop_replies := early_backend \<rparr>)))))
       = [ResetCoq, CoqAddCommand ''A.'' 0 1 False,
          SentenceStatusUpdate (Range (Position 0 0) (Position 0 2)) Processed]
   \<and> status (store (snd (addCommand cmd_A False
          (snd (onCoqStateStatusUpdate 5 0 Processed ''worker'' (stm_root\<lparr> coqtop_replies := early_backend \<rparr>))))) 1)
       = ProcessingInput
   \<and> trace (snd (onCoqStateStatusUpdate 5 0 Processed ''worker''
          (snd (addCommand cmd_A False (stm_root\<lparr> coqtop_replies := early_backend \<rparr>)))))
       = [ResetCoq, CoqAddCommand ''A.'' 0 1 False,
          SentenceStatusUpdate (Range (Position 0 0) (Position 0 2)) Processed]
   \<and> status (store (snd (onCoqStateStatusUpdate 5 0 Processed ''worker''
          (snd (addCommand cmd_A False (stm_root\<lparr> coqtop_replies := early_backend \<rparr>))))) 1)
       = Processed"
  by (simp add: stm_root_def early_backend_def onCoqStateStatusUpdate_def indexed_def
      addCommand_def addCommand_try_def addCommand_value_def Sentence_add_def await_def emit_def
      applyBufferedFeedback_def updateStatus_def transition_def callback_def Let_def newRoot_def cmd_A_def
      positionIsEqual_def positionIsAfterOrEqual_def)

section \<open>C8: reconciling document edits\<close>

text \<open>The comparator of \<^verbatim>\<open>applyChanges\<close> orders positions totally; the sort is a sorted permutation.\<close>

lemma positionIsAfterOrEqual_trans:
  "positionIsAfterOrEqual p q \<Longrightarrow> positionIsAfterOrEqual q r \<Longrightarrow> positionIsAfterOrEqual p r"
  by (auto simp: positionIsAfterOrEqual_def)

lemma positionIsAfter_imp: "positionIsAfter p q \<Longrightarrow> positionIsAfterOrEqual p q"
  by (auto simp: positionIsAfter_def positionIsAfterOrEqual_def)

lemma not_positionIsAfter: "\<not> positionIsAfter p q \<Longrightarrow> positionIsAfterOrEqual q p"
  by (auto simp: positionIsAfter_def positionIsAfterOrEqual_def)

lemma set_insertChange: "set (insertChange c ds) = insert c (set ds)"
  by (induction ds) auto

lemma mset_insertChange: "mset (insertChange c ds) = add_mset c (mset ds)"
  by (induction ds) auto

lemma sorted_insertChange:
  "sorted_wrt startsAtOrAfter ds \<Longrightarrow> sorted_wrt startsAtOrAfter (insertChange c ds)"
proof (induction ds)
  case Nil
  then show ?case by simp
next
  case (Cons d ds)
  show ?case
  proof (cases "positionIsAfter (range_start (change_range c)) (range_start (change_range d))")
    case True
    then have cd: "startsAtOrAfter c d" by (simp add: startsAtOrAfter_def positionIsAfter_imp)
    have "startsAtOrAfter c e" if "e \<in> set ds" for e
    proof -
      from Cons.prems that have "startsAtOrAfter d e" by simp
      with cd show ?thesis unfolding startsAtOrAfter_def by (rule positionIsAfterOrEqual_trans)
    qed
    with Cons.prems cd True show ?thesis by auto
  next
    case False
    then have "startsAtOrAfter d c" by (simp add: startsAtOrAfter_def not_positionIsAfter)
    with Cons False show ?thesis by (auto simp: set_insertChange)
  qed
qed

lemma sortChanges_foldl:
  "sorted_wrt startsAtOrAfter acc \<Longrightarrow>
   sorted_wrt startsAtOrAfter (foldl (\<lambda>sorted c. insertChange c sorted) acc cs)
   \<and> mset (foldl (\<lambda>sorted c. insertChange c sorted) acc cs) = mset acc + mset cs"
  by (induction cs arbitrary: acc) (simp_all add: sorted_insertChange mset_insertChange)

lemma sortChanges_sorted: "sorted_wrt startsAtOrAfter (sortChanges cs)"
  using sortChanges_foldl[of "[]" cs] by (simp add: sortChanges_def)

lemma sortChanges_mset: "mset (sortChanges cs) = mset cs"
  using sortChanges_foldl[of "[]" cs] by (simp add: sortChanges_def)

text \<open>The sort is stable: the changes that start at one position keep their order.\<close>

lemma positionIsAfter_irrefl: "\<not> positionIsAfter p p"
  by (simp add: positionIsAfter_def)

lemma positionIsAfter_after: "positionIsAfter p q \<Longrightarrow> positionIsAfterOrEqual q r \<Longrightarrow> positionIsAfter p r"
  by (auto simp: positionIsAfter_def positionIsAfterOrEqual_def)

lemma filter_insertChange:
  assumes "sorted_wrt startsAtOrAfter ds"
  shows "filter (\<lambda>d. range_start (change_range d) = p) (insertChange c ds)
       = filter (\<lambda>d. range_start (change_range d) = p) ds
         @ (if range_start (change_range c) = p then [c] else [])"
  using assms
proof (induction ds)
  case Nil
  then show ?case by simp
next
  case (Cons d ds)
  show ?case
  proof (cases "positionIsAfter (range_start (change_range c)) (range_start (change_range d))")
    case False
    with Cons show ?thesis by simp
  next
    case True
    have "range_start (change_range e) \<noteq> range_start (change_range c)" if "e \<in> set (d # ds)" for e
    proof
      assume eq: "range_start (change_range e) = range_start (change_range c)"
      from Cons.prems that
      have "positionIsAfterOrEqual (range_start (change_range d)) (range_start (change_range e))"
        by (auto simp: startsAtOrAfter_def positionIsAfterOrEqual_def)
      with True have "positionIsAfter (range_start (change_range c)) (range_start (change_range e))"
        by (rule positionIsAfter_after)
      with eq show False by (simp add: positionIsAfter_irrefl)
    qed
    then have "range_start (change_range c) = p \<Longrightarrow>
        filter (\<lambda>d. range_start (change_range d) = p) (d # ds) = []"
      by (auto simp: filter_empty_conv)
    with True show ?thesis by auto
  qed
qed

lemma sortChanges_stable:
  "filter (\<lambda>d. range_start (change_range d) = p) (sortChanges cs)
     = filter (\<lambda>d. range_start (change_range d) = p) cs"
proof -
  have "sorted_wrt startsAtOrAfter acc \<Longrightarrow>
      filter (\<lambda>d. range_start (change_range d) = p) (foldl (\<lambda>sorted c. insertChange c sorted) acc cs)
      = filter (\<lambda>d. range_start (change_range d) = p) acc @ filter (\<lambda>d. range_start (change_range d) = p) cs"
    for acc
  proof (induction cs arbitrary: acc)
    case Nil
    then show ?case by simp
  next
    case (Cons c cs)
    from Cons.prems have "sorted_wrt startsAtOrAfter (insertChange c acc)" by (rule sorted_insertChange)
    from Cons.IH[OF this] Cons.prems show ?case by (simp add: filter_insertChange)
  qed
  from this[of "[]"] show ?thesis by (simp add: sortChanges_def)
qed

text \<open>
  On a sorted list, shifting changes off the front while they start at or after the end of
  the sentence drops every such change, so the walk of the program is the walk of the
  specification.
\<close>

lemma dropWhile_sorted_filter:
  assumes "sorted_wrt startsAtOrAfter cs"
  shows "dropWhile (\<lambda>c. positionIsAfterOrEqual (range_start (change_range c)) p) cs
       = filter (\<lambda>c. \<not> positionIsAfterOrEqual (range_start (change_range c)) p) cs"
  using assms
proof (induction cs)
  case Nil
  then show ?case by simp
next
  case (Cons c cs)
  show ?case
  proof (cases "positionIsAfterOrEqual (range_start (change_range c)) p")
    case True
    with Cons show ?thesis by simp
  next
    case False
    have "\<not> positionIsAfterOrEqual (range_start (change_range d)) p" if "d \<in> set cs" for d
    proof
      assume "positionIsAfterOrEqual (range_start (change_range d)) p"
      moreover from Cons.prems that have "startsAtOrAfter c d" by simp
      ultimately have "positionIsAfterOrEqual (range_start (change_range c)) p"
        unfolding startsAtOrAfter_def by (rule positionIsAfterOrEqual_trans[rotated])
      with False show False by simp
    qed
    then have "filter (\<lambda>c. \<not> positionIsAfterOrEqual (range_start (change_range c)) p) cs = cs"
      by (simp add: filter_id_conv)
    with False show ?thesis by simp
  qed
qed

lemma walk_reconcile:
  "sorted_wrt startsAtOrAfter cs \<Longrightarrow> walk atc cs sents s = reconcile atc cs sents s"
proof (induction sents arbitrary: cs s)
  case Nil
  then show ?case by simp
next
  case (Cons sent sents)
  let ?kept = "filter (\<lambda>e. \<not> positionIsAfterOrEqual (range_start (change_range e))
                                    (range_end (textRange (store s sent)))) cs"
  have r: "remainingChanges sent cs s = ?kept"
    unfolding remainingChanges_def using Cons.prems by (rule dropWhile_sorted_filter)
  have "sorted_wrt startsAtOrAfter ?kept" using Cons.prems by (rule sorted_wrt_filter)
  then have ih: "walk atc ?kept sents s1 = reconcile atc ?kept sents s1" for s1 by (rule Cons.IH)
  obtain r1 s1 where v: "visit atc ?kept sent s = (r1, s1)" by (cases "visit atc ?kept sent s")
  show ?case
  proof (cases r1)
    case (Inl e)
    with v show ?thesis by (simp add: r Let_def)
  next
    case (Inr u)
    with v ih show ?thesis by (simp add: r Let_def)
  qed
qed

lemma applyChanges_reconciles:
  assumes "running s" "changes \<noteq> []" "lastSentence s = Some l"
  shows "sorted_wrt startsAtOrAfter (sortChanges changes)"
    and "mset (sortChanges changes) = mset changes"
    and "applyChanges atc changes newVersion s =
        (case reconcile atc (sortChanges changes) (sentence_ancestors l s) s of
           (Inr u, s1) \<Rightarrow> (Inr (), s1\<lparr> version := newVersion \<rparr>)
         | (Inl err, s1) \<Rightarrow>
             (case handleInconsistentState err s1 of
                (Inl e, s2) \<Rightarrow> (Inl e, s2)
              | (Inr u, s2) \<Rightarrow> (Inr (), s2\<lparr> version := newVersion \<rparr>)))"
  using assms
  by (simp_all add: sortChanges_sorted sortChanges_mset applyChanges_def walk_reconcile)

text \<open>
  A visit sends nothing for a sentence that is still valid, and cancels an invalidated one.
  Cancelling focuses the parent: an edit-at of the parent's state is sent when the parent
  does not have the focus, and nothing happens when it has.
\<close>

lemma visit_valid:
  "fst (atc cs (store s sent)) = False \<Longrightarrow>
   visit atc cs sent s = (Inr (), s\<lparr> store := (store s)(sent := (store s sent)\<lparr> textRange := snd (atc cs (store s sent)) \<rparr>) \<rparr>)"
  by (cases "atc cs (store s sent)") (simp add: visit_def)

lemma visit_invalidated:
  "fst (atc cs (store s sent)) = True \<Longrightarrow>
   visit atc cs sent s = cancelSentence (Some sent)
      (s\<lparr> store := (store s)(sent := (store s sent)\<lparr> textRange := snd (atc cs (store s sent)) \<rparr>) \<rparr>)"
  by (cases "atc cs (store s sent)") (simp add: visit_def)

lemma rewindRange_trace: "rewindRange a e s = (r, s') \<Longrightarrow> \<exists>rest. trace s' = trace s @ rest"
proof (cases "root s")
  case None
  assume "rewindRange a e s = (r, s')"
  with None show ?thesis by (simp add: rewindRange_def)
next
  case (Some t)
  assume a: "rewindRange a e s = (r, s')"
  obtain removed t' where rm: "removeDescendentsUntil a e t = (removed, t')"
    by (cases "removeDescendentsUntil a e t")
  with a Some have "deleteSentences removed (s\<lparr> root := Some t' \<rparr>) = (r, s')"
    by (simp add: rewindRange_def)
  from deleteSentences_trace[OF this] show ?thesis by simp
qed

lemma gotoErrorFallbackState_appends:
  "\<exists>rest. trace (snd (gotoErrorFallbackState sid s)) = trace s @ rest"
proof (cases "sentences s")
  case None
  then have "gotoErrorFallbackState sid s = handleInconsistentState TypeError s"
    by (simp add: gotoErrorFallbackState_def gotoErrorFallbackState_try_def)
  then show ?thesis
    using handleInconsistentState_trace[of TypeError s] by (metis prod.collapse)
next
  case (Some m)
  from gotoErrorFallbackState_trace[OF this, of sid] show ?thesis by auto
qed

lemma focusSentence_try_trace:
  assumes "focusSentence_try (Some p) s = (r, s')"
  shows "\<exists>rest. trace s' = trace s @ CoqEditAt (stateId (store s p)) # rest"
proof -
  let ?req = "CoqEditAt (stateId (store s p))"
  let ?s1 = "requested [?req] s"
  have aw: "await ?req s = (coqtop_replies s (coqtop_sent s), ?s1)"
    by (simp add: await_def requested_def emit_def)
  have t1: "trace ?s1 = trace s @ [?req]" by (simp add: requested_def)
  show ?thesis
  proof (cases "editAt_reply (coqtop_replies s (coqtop_sent s))")
    case (EditAtFailure f)
    with assms aw t1 show ?thesis by (auto simp: focusSentence_try_def)
  next
    case (EditAtRejected str)
    with assms aw t1 show ?thesis by (auto simp: focusSentence_try_def)
  next
    case (EditAtValue newFocus)
    obtain r2 s2 where inner:
      "(case newFocus of
          Some endStateId \<Rightarrow>
            (case sentences ?s1 of None \<Rightarrow> (Inl TypeError, ?s1)
             | Some m \<Rightarrow> rewindRange p (m endStateId) ?s1)
        | None \<Rightarrow> rewindTo (Some p) ?s1) = (r2, s2)"
      by (metis prod.collapse)
    have "\<exists>rest. trace s2 = trace ?s1 @ rest"
    proof (cases newFocus)
      case None
      with inner show ?thesis using rewindTo_trace by simp
    next
      case (Some q)
      show ?thesis
      proof (cases "sentences ?s1")
        case None
        with inner Some show ?thesis by auto
      next
        case (Some m)
        with inner \<open>newFocus = Some q\<close> show ?thesis using rewindRange_trace by simp
      qed
    qed
    then obtain rest where rest: "trace s2 = trace s @ ?req # rest" using t1 by auto
    from assms aw EditAtValue inner have "s' = s2 \<or> s' = s2\<lparr> focusedSentence := Some p \<rparr>"
      by (cases r2) (auto simp: focusSentence_try_def)
    with rest show ?thesis by auto
  qed
qed

lemma cancelSentence_sends_editAt:
  assumes "sentence_parent sent s = Some p" "focusedSentence s \<noteq> Some p"
  shows "\<exists>rest. trace (snd (cancelSentence (Some sent) s)) = trace s @ CoqEditAt (stateId (store s p)) # rest"
proof -
  obtain r1 s1 where t: "focusSentence_try (Some p) s = (r1, s1)"
    by (cases "focusSentence_try (Some p) s")
  from focusSentence_try_trace[OF t] obtain rest where
    r: "trace s1 = trace s @ CoqEditAt (stateId (store s p)) # rest" by blast
  have c: "cancelSentence (Some sent) s = focusSentence (Some p) s"
    using assms by (simp add: cancelSentence_def)
  show ?thesis
  proof (cases r1)
    case (Inr u)
    with t assms c r show ?thesis by (simp add: focusSentence_def)
  next
    case (Inl err)
    show ?thesis
    proof (cases "fallback_stateId err")
      case None
      with t assms c r Inl show ?thesis by (simp add: focusSentence_def)
    next
      case (Some sid)
      from gotoErrorFallbackState_appends[of sid s1] obtain rest' where
        "trace (snd (gotoErrorFallbackState sid s1)) = trace s1 @ rest'" by blast
      with t assms c r Inl Some show ?thesis by (simp add: focusSentence_def)
    qed
  qed
qed

lemma cancelSentence_parent_focused:
  assumes "sentence_parent sent s = focusedSentence s"
  shows "cancelSentence (Some sent) s = (Inr (), s)"
  using assms by (simp add: cancelSentence_def focusSentence_def)

lemma stm_jumped_reached: "focusSentence (Some 1) stm_proof = (Inr (), stm_jumped)"
  by (simp add: focusSentence_def focusSentence_try_def stm_proof_def stm_jumped_def await_def emit_def
      proof_backend_def rewindRange_def removeDescendentsUntil_def descendantsUntil_def
      descendants_of_def descendants_def deleteSentence_def callback_def Let_def fun_eq_iff)

text \<open>
  Claim C8, evaluated where it fails. After the proof jump the focus is the sentence of
  state 2 and the last sentence is its child, the closing sentence of state 4. An edit
  inside the closing sentence invalidates it, and \<^verbatim>\<open>applyChanges\<close> calls \<^verbatim>\<open>cancelSentence\<close> for
  it; but the parent already has the focus, so \<^verbatim>\<open>focusSentence\<close> returns at once: no edit-at
  is sent, the trace is unchanged, and the invalidated sentence stays live and indexed.
  Only the version changes.
\<close>

theorem applyChanges_keeps_invalidated:
  "fst (applyTextChanges_interior [edit_in_qed] (store stm_jumped 3))
   \<and> lastSentence stm_jumped = Some 3
   \<and> sentence_parent 3 stm_jumped = focusedSentence stm_jumped
   \<and> applyChanges applyTextChanges_interior [edit_in_qed] 1 stm_jumped
       = (Inr (), stm_jumped\<lparr> version := 1 \<rparr>)
   \<and> trace (snd (applyChanges applyTextChanges_interior [edit_in_qed] 1 stm_jumped)) = trace stm_jumped
   \<and> 3 \<in> live (snd (applyChanges applyTextChanges_interior [edit_in_qed] 1 stm_jumped))
   \<and> indexed (snd (applyChanges applyTextChanges_interior [edit_in_qed] 1 stm_jumped)) 4 = Some 3"
proof -
  have inv: "applyTextChanges_interior [edit_in_qed] (store stm_jumped 3)
             = (True, Range (Position 0 11) (Position 0 15))"
    by (simp add: applyTextChanges_interior_def intersectsInterior_def edit_in_qed_def stm_jumped_def
        positionIsBefore_def positionIsAfter_def)
  have la: "lastSentence stm_jumped = Some 3" and run: "running stm_jumped"
    by (simp_all add: stm_jumped_def)
  have par: "sentence_parent 3 stm_jumped = Some 1" "focusedSentence stm_jumped = Some 1"
    by (simp_all add: sentence_parent_def stm_jumped_def)
  have anc: "sentence_ancestors 3 stm_jumped = [3, Suc 0, 0]"
    by (simp add: sentence_ancestors_def ancestors_def stm_jumped_def)
  have srt: "sortChanges [edit_in_qed] = [edit_in_qed]" by (simp add: sortChanges_def)
  have r3: "remainingChanges 3 [edit_in_qed] stm_jumped = [edit_in_qed]"
    by (simp add: remainingChanges_def edit_in_qed_def stm_jumped_def positionIsAfterOrEqual_def)
  have same: "stm_jumped\<lparr> store := (store stm_jumped)
                (3 := (store stm_jumped 3)\<lparr> textRange := Range (Position 0 11) (Position 0 15) \<rparr>) \<rparr>
              = stm_jumped"
    by (simp add: stm_jumped_def fun_eq_iff)
  have v3: "visit applyTextChanges_interior [edit_in_qed] 3 stm_jumped = (Inr (), stm_jumped)"
    using par by (simp add: visit_def inv same cancelSentence_def focusSentence_def)
  have r1: "remainingChanges (Suc 0) [edit_in_qed] stm_jumped = []"
    by (simp add: remainingChanges_def edit_in_qed_def stm_jumped_def positionIsAfterOrEqual_def)
  have w: "walk applyTextChanges_interior [edit_in_qed] [3, Suc 0, 0] stm_jumped = (Inr (), stm_jumped)"
    by (simp add: r3 v3 r1)
  have ac: "applyChanges applyTextChanges_interior [edit_in_qed] 1 stm_jumped
       = (Inr (), stm_jumped\<lparr> version := 1 \<rparr>)"
    using run by (simp add: applyChanges_def la anc srt w del: walk.simps)
  have lv: "3 \<in> live (stm_jumped\<lparr> version := 1 \<rparr>)" by (simp add: live_def stm_jumped_def)
  have ix: "indexed (stm_jumped\<lparr> version := 1 \<rparr>) 4 = Some 3" by (simp add: indexed_def stm_jumped_def)
  from inv la par ac lv ix show ?thesis by simp
qed

theorem applyChanges_keeps_invalidated_witness:
  "CoqEditAt 2 \<notin> set (drop (length (trace stm_jumped))
        (trace (snd (applyChanges applyTextChanges_interior [edit_in_qed] 1 stm_jumped))))
   \<and> running (snd (applyChanges applyTextChanges_interior [edit_in_qed] 1 stm_jumped))"
  using applyChanges_keeps_invalidated by (simp add: stm_jumped_def)

section \<open>The callbacks are present while the machine runs\<close>

text \<open>
  The claims about a running machine assume that its callbacks are present. Every operation
  keeps \<^verbatim>\<open>coherent\<close>, so a state reached from the constructor satisfies the assumption
  whenever it is running.
\<close>

lemma coherent_new: "coherent (new_STM replies)"
  by (simp add: coherent_def new_STM_def)

lemma coherent_dispose: "coherent (dispose s)"
  by (simp add: coherent_def dispose_def emit_def)

lemma coherent_await: "coherent s \<Longrightarrow> await e s = (rep, s') \<Longrightarrow> coherent s'"
  by (auto simp: coherent_def await_def emit_def)

lemma coherent_trace [simp]: "coherent (s\<lparr> trace := t \<rparr>) = coherent s"
  by (simp add: coherent_def)

lemma coherent_sent [simp]: "coherent (s\<lparr> coqtop_sent := n \<rparr>) = coherent s"
  by (simp add: coherent_def)

lemma coherent_store [simp]: "coherent (s\<lparr> store := st \<rparr>) = coherent s"
  by (simp add: coherent_def)

lemma coherent_focus [simp]: "coherent (s\<lparr> focusedSentence := f \<rparr>) = coherent s"
  by (simp add: coherent_def)

lemma coherent_last [simp]: "coherent (s\<lparr> lastSentence := f \<rparr>) = coherent s"
  by (simp add: coherent_def)

lemma coherent_version [simp]: "coherent (s\<lparr> version := f \<rparr>) = coherent s"
  by (simp add: coherent_def)

lemma coherent_shutdown: "coherent s \<Longrightarrow> coherent (shutdown s)"
  by (simp add: shutdown_def coherent_dispose)

lemma coherent_interrupt: "coherent s \<Longrightarrow> coherent (interrupt s)"
  by (simp add: interrupt_def await_def emit_def)

lemma coherent_initialize: "coherent s \<Longrightarrow> initialize sid s = (r, s') \<Longrightarrow> coherent s'"
  by (auto simp: initialize_def Let_def coherent_def split: if_splits)

lemma coherent_validateState: "coherent s \<Longrightarrow> validateState b s = (r, s') \<Longrightarrow> coherent s'"
proof -
  assume u: "coherent s" and v: "validateState b s = (r, s')"
  show ?thesis
  proof (cases "running s \<and> \<not> coqtop_isRunning s \<and> b")
    case False
    with u v show ?thesis by (auto simp: validateState_def split: if_splits)
  next
    case True
    let ?s1 = "(snd (await ResetCoq s))\<lparr> coqtop_isRunning := True \<rparr>"
    have u1: "coherent ?s1" using u by (simp add: await_def emit_def coherent_def)
    obtain r2 s2 where i: "initialize (reset_reply (fst (await ResetCoq s))) ?s1 = (r2, s2)"
      by (metis prod.collapse)
    from coherent_initialize[OF u1 i] have "coherent s2" .
    moreover from v True i have "s' = s2"
      by (cases r2) (auto simp: validateState_def split: prod.splits)
    ultimately show ?thesis by simp
  qed
qed

lemma coherent_handleInconsistentState:
  "coherent s \<Longrightarrow> handleInconsistentState err s = (r, s') \<Longrightarrow> coherent s'"
  by (auto simp: handleInconsistentState_def coherent_dispose split: sum.splits)

lemma coherent_throwInconsistentState:
  "coherent s \<Longrightarrow> throwInconsistentState msg s = (r, s') \<Longrightarrow> coherent s'"
  by (auto simp: throwInconsistentState_def coherent_dispose split: sum.splits)

lemma coherent_deleteSentence: "coherent s \<Longrightarrow> deleteSentence x s = (r, s') \<Longrightarrow> coherent s'"
  by (auto simp: deleteSentence_def callback_def emit_def coherent_def
      split: sum.splits option.splits if_splits)

lemma coherent_deleteSentences: "coherent s \<Longrightarrow> deleteSentences xs s = (r, s') \<Longrightarrow> coherent s'"
proof (induction xs arbitrary: s)
  case Nil
  then show ?case by simp
next
  case (Cons x xs)
  obtain r1 s1 where d: "deleteSentence x s = (r1, s1)" by (cases "deleteSentence x s")
  from coherent_deleteSentence[OF Cons.prems(1) d] have u1: "coherent s1" .
  show ?case
  proof (cases r1)
    case (Inl e)
    with Cons.prems d u1 show ?thesis by simp
  next
    case (Inr u)
    with Cons.prems d have "deleteSentences xs s1 = (r, s')" by simp
    with Cons.IH u1 show ?thesis by blast
  qed
qed

lemma coherent_rewindTo: "coherent s \<Longrightarrow> rewindTo n s = (r, s') \<Longrightarrow> coherent s'"
proof (cases n)
  case None
  assume "coherent s" "rewindTo n s = (r, s')"
  with None show ?thesis by (simp add: rewindTo_def)
next
  case (Some x)
  assume c: "coherent s" and a: "rewindTo n s = (r, s')"
  obtain r1 s1 where d: "deleteSentences (sentence_descendants x s) s = (r1, s1)"
    by (cases "deleteSentences (sentence_descendants x s) s")
  from coherent_deleteSentences[OF c d] have "coherent s1" .
  with a d Some show ?thesis by (cases r1) (auto simp: rewindTo_def coherent_def)
qed

lemma coherent_rewindRange: "coherent s \<Longrightarrow> rewindRange a e s = (r, s') \<Longrightarrow> coherent s'"
proof (cases "root s")
  case None
  assume "coherent s" "rewindRange a e s = (r, s')"
  with None show ?thesis by (simp add: rewindRange_def)
next
  case (Some t)
  assume c: "coherent s" and a: "rewindRange a e s = (r, s')"
  obtain removed t' where rm: "removeDescendentsUntil a e t = (removed, t')"
    by (cases "removeDescendentsUntil a e t")
  have "coherent (s\<lparr> root := Some t' \<rparr>)" using c Some by (simp add: coherent_def)
  moreover from a Some rm have "deleteSentences removed (s\<lparr> root := Some t' \<rparr>) = (r, s')"
    by (simp add: rewindRange_def)
  ultimately show ?thesis by (rule coherent_deleteSentences)
qed

lemma coherent_gotoErrorFallbackState_try:
  "coherent s \<Longrightarrow> gotoErrorFallbackState_try sid s = (r, s') \<Longrightarrow> coherent s'"
proof (cases "sentences s")
  case None
  assume "coherent s" "gotoErrorFallbackState_try sid s = (r, s')"
  with None show ?thesis by (simp add: gotoErrorFallbackState_try_def)
next
  case (Some m)
  assume c: "coherent s" and a: "gotoErrorFallbackState_try sid s = (r, s')"
  let ?s1 = "snd (await (CoqEditAt sid) s)"
  have c1: "coherent ?s1" using c by (simp add: await_def emit_def)
  show ?thesis
  proof (cases "editAt_reply (coqtop_replies s (coqtop_sent s))")
    case (EditAtValue nf)
    with a Some have "rewindTo (m sid) ?s1 = (r, s')"
      by (simp add: gotoErrorFallbackState_try_def await_def)
    with c1 show ?thesis by (rule coherent_rewindTo)
  next
    case (EditAtFailure f)
    with a Some c1 show ?thesis by (auto simp: gotoErrorFallbackState_try_def await_def)
  next
    case (EditAtRejected str)
    with a Some c1 show ?thesis by (auto simp: gotoErrorFallbackState_try_def await_def)
  qed
qed

lemma coherent_gotoErrorFallbackState:
  "coherent s \<Longrightarrow> gotoErrorFallbackState sid s = (r, s') \<Longrightarrow> coherent s'"
proof -
  assume c: "coherent s" and a: "gotoErrorFallbackState sid s = (r, s')"
  obtain r1 s1 where t: "gotoErrorFallbackState_try sid s = (r1, s1)"
    by (cases "gotoErrorFallbackState_try sid s")
  from coherent_gotoErrorFallbackState_try[OF c t] have c1: "coherent s1" .
  show ?thesis
  proof (cases r1)
    case (Inr u)
    with a t c1 show ?thesis by (simp add: gotoErrorFallbackState_def)
  next
    case (Inl err)
    with a t have "handleInconsistentState err s1 = (r, s')" by (simp add: gotoErrorFallbackState_def)
    with c1 show ?thesis by (rule coherent_handleInconsistentState)
  qed
qed

lemma coherent_focusSentence_try:
  "coherent s \<Longrightarrow> focusSentence_try x s = (r, s') \<Longrightarrow> coherent s'"
proof (cases x)
  case None
  assume "coherent s" "focusSentence_try x s = (r, s')"
  with None show ?thesis by (simp add: focusSentence_try_def)
next
  case (Some p)
  assume c: "coherent s" and a: "focusSentence_try x s = (r, s')"
  let ?req = "CoqEditAt (stateId (store s p))"
  let ?s1 = "requested [?req] s"
  have aw: "await ?req s = (coqtop_replies s (coqtop_sent s), ?s1)"
    by (simp add: await_def requested_def emit_def)
  have c1: "coherent ?s1" using c by (simp add: requested_def)
  show ?thesis
  proof (cases "editAt_reply (coqtop_replies s (coqtop_sent s))")
    case (EditAtFailure f)
    with a Some c1 aw show ?thesis by (auto simp: focusSentence_try_def)
  next
    case (EditAtRejected str)
    with a Some c1 aw show ?thesis by (auto simp: focusSentence_try_def)
  next
    case (EditAtValue newFocus)
    obtain r2 s2 where inner:
      "(case newFocus of
          Some endStateId \<Rightarrow>
            (case sentences ?s1 of None \<Rightarrow> (Inl TypeError, ?s1)
             | Some m \<Rightarrow> rewindRange p (m endStateId) ?s1)
        | None \<Rightarrow> rewindTo (Some p) ?s1) = (r2, s2)"
      by (metis prod.collapse)
    have c2: "coherent s2"
    proof (cases newFocus)
      case None
      with inner c1 show ?thesis using coherent_rewindTo by simp
    next
      case (Some q)
      show ?thesis
      proof (cases "sentences ?s1")
        case None
        with inner Some c1 show ?thesis by auto
      next
        case (Some m)
        with inner \<open>newFocus = Some q\<close> c1 show ?thesis using coherent_rewindRange by simp
      qed
    qed
    from a Some EditAtValue inner aw have "s' = s2 \<or> s' = s2\<lparr> focusedSentence := Some p \<rparr>"
      by (cases r2) (auto simp: focusSentence_try_def)
    with c2 show ?thesis by auto
  qed
qed

lemma coherent_focusSentence:
  "coherent s \<Longrightarrow> focusSentence x s = (r, s') \<Longrightarrow> coherent s'"
proof -
  assume c: "coherent s" and a: "focusSentence x s = (r, s')"
  show ?thesis
  proof (cases "x = focusedSentence s")
    case True
    with a c show ?thesis by (simp add: focusSentence_def)
  next
    case False
    obtain r1 s1 where t: "focusSentence_try x s = (r1, s1)" by (cases "focusSentence_try x s")
    from coherent_focusSentence_try[OF c t] have c1: "coherent s1" .
    show ?thesis
    proof (cases r1)
      case (Inr u)
      with a t False c1 show ?thesis by (simp add: focusSentence_def)
    next
      case (Inl err)
      show ?thesis
      proof (cases "fallback_stateId err")
        case None
        with a t False c1 Inl show ?thesis by (simp add: focusSentence_def)
      next
        case (Some sid)
        with a t False Inl have "gotoErrorFallbackState sid s1 = (r, s')"
          by (simp add: focusSentence_def)
        with c1 show ?thesis by (rule coherent_gotoErrorFallbackState)
      qed
    qed
  qed
qed

lemma coherent_cancelSentence:
  "coherent s \<Longrightarrow> cancelSentence x s = (r, s') \<Longrightarrow> coherent s'"
  by (cases x) (auto simp: cancelSentence_def dest: coherent_focusSentence)

lemma coherent_stepBackward:
  "coherent s \<Longrightarrow> stepBackward s = (r, s') \<Longrightarrow> coherent s'"
proof -
  assume c: "coherent s" and a: "stepBackward s = (r, s')"
  obtain r1 s1 where v: "validateState True s = (r1, s1)" by (cases "validateState True s")
  from coherent_validateState[OF c v] have c1: "coherent s1" .
  show ?thesis
  proof (cases r1)
    case (Inl e)
    with a v c1 show ?thesis by (simp add: stepBackward_def)
  next
    case (Inr b)
    with a v have "cancelSentence (focusedSentence s1) s1 = (r, s')" by (simp add: stepBackward_def)
    with c1 show ?thesis by (rule coherent_cancelSentence)
  qed
qed

lemma coherent_applyFeedback: "coherent s \<Longrightarrow> applyFeedback fs s = (r, s') \<Longrightarrow> coherent s'"
proof (induction fs arbitrary: s)
  case Nil
  then show ?case by simp
next
  case (Cons f fs)
  show ?case
  proof (cases "sentences s")
    case None
    with Cons.prems show ?thesis by simp
  next
    case (Some m)
    show ?thesis
    proof (cases "m (fb_stateId f)")
      case None
      with Cons Some show ?thesis by simp
    next
      case (Some sent)
      let ?s1 = "updateStatus sent (fb_status f) s"
      have c1: "coherent ?s1" using Cons.prems(1) by (simp add: updateStatus_def transition_def)
      show ?thesis
      proof (cases "callbacks ?s1")
        case False
        with Cons.prems \<open>sentences s = Some m\<close> Some c1 show ?thesis
          by (simp add: callback_def Let_def)
      next
        case True
        let ?s2 = "emit (SentenceStatusUpdate (textRange (store ?s1 sent)) (status (store ?s1 sent))) ?s1"
        have c2: "coherent ?s2" using c1 by (simp add: emit_def)
        from Cons.prems \<open>sentences s = Some m\<close> Some True have "applyFeedback fs ?s2 = (r, s')"
          by (simp add: callback_def Let_def)
        with Cons.IH c2 show ?thesis by blast
      qed
    qed
  qed
qed

lemma coherent_applyBufferedFeedback:
  "coherent s \<Longrightarrow> applyBufferedFeedback s = (r, s') \<Longrightarrow> coherent s'"
proof (cases "bufferedFeedback s")
  case None
  assume "coherent s" "applyBufferedFeedback s = (r, s')"
  with None show ?thesis by (simp add: applyBufferedFeedback_def)
next
  case (Some buffered)
  assume c: "coherent s" and a: "applyBufferedFeedback s = (r, s')"
  obtain r1 s1 where f: "applyFeedback buffered s = (r1, s1)" by (cases "applyFeedback buffered s")
  from coherent_applyFeedback[OF c f] have "coherent s1" .
  with a f Some show ?thesis by (cases r1) (auto simp: applyBufferedFeedback_def coherent_def)
qed

lemma coherent_onCoqStateStatusUpdate:
  "coherent s \<Longrightarrow> onCoqStateStatusUpdate sid route st w s = (r, s') \<Longrightarrow> coherent s'"
  by (auto simp: onCoqStateStatusUpdate_def Let_def updateStatus_def transition_def callback_def emit_def coherent_def
      split: option.splits sum.splits if_splits)

lemma coherent_onCoqClosed: "coherent s \<Longrightarrow> onCoqClosed err s = (r, s') \<Longrightarrow> coherent s'"
  by (auto simp: onCoqClosed_def Let_def callback_def coherent_dispose emit_def
      split: if_splits sum.splits)

lemma coherent_addCommand_value:
  "coherent s \<Longrightarrow> addCommand_value p c n u s = (r, s') \<Longrightarrow> coherent s'"
proof -
  assume c: "coherent s" and a: "addCommand_value p c n u s = (r, s')"
  let ?new = "next_ref s"
  let ?s2 = "s\<lparr> store := (store s)(?new := \<lparr> stateId = n, commandText = cmd_text c,
                                                textRange = cmd_range c, status = ProcessingInput \<rparr>),
                  next_ref := Suc ?new,
                  root := map_option (add_child p ?new) (root s) \<rparr>"
  have sa: "Sentence_add p (cmd_text c) n (cmd_range c) s = (?new, ?s2)"
    by (simp add: Sentence_add_def Let_def)
  have c2: "coherent ?s2" using c by (auto simp: coherent_def)
  show ?thesis
  proof (cases "sentences ?s2")
    case None
    with a sa c2 show ?thesis by (simp add: addCommand_value_def)
  next
    case (Some m)
    let ?s2' = "?s2\<lparr> sentences := Some (m(stateId (store ?s2 ?new) \<mapsto> ?new)) \<rparr>"
    have c2': "coherent ?s2'" using c2 Some by (auto simp: coherent_def)
    obtain r3 s3 where fb: "applyBufferedFeedback ?s2' = (r3, s3)"
      by (cases "applyBufferedFeedback ?s2'")
    from coherent_applyBufferedFeedback[OF c2' fb] have c3: "coherent s3" .
    show ?thesis
    proof (cases r3)
      case (Inl e)
      with a sa Some fb c3 show ?thesis by (simp add: addCommand_value_def)
    next
      case (Inr v)
      let ?s4 = "updateStatus ?new ProcessingInput s3"
      have c4: "coherent ?s4" using c3 by (simp add: updateStatus_def transition_def)
      from a sa Some fb Inr have
        "s' = ?s4 \<or> (\<exists>f. s' = ?s4\<lparr> focusedSentence := f \<rparr>)
         \<or> (\<exists>f. s' = ?s4\<lparr> lastSentence := Some ?new, focusedSentence := f \<rparr>)
         \<or> s' = ?s4\<lparr> lastSentence := Some ?new \<rparr>"
        by (auto simp: addCommand_value_def Let_def split: option.splits if_splits)
      with c4 show ?thesis by auto
    qed
  qed
qed

lemma coherent_addCommand_try:
  "coherent s \<Longrightarrow> addCommand_try c v s = (r, s') \<Longrightarrow> coherent s'"
proof (cases "focusedSentence s")
  case None
  assume "coherent s" "addCommand_try c v s = (r, s')"
  with None show ?thesis by (simp add: addCommand_try_def)
next
  case (Some parent)
  assume c: "coherent s" and a: "addCommand_try c v s = (r, s')"
  show ?thesis
  proof (cases "positionIsEqual (range_end (textRange (store s parent))) (range_start (cmd_range c))")
    case False
    obtain e s1 where t: "throwInconsistentState ''Can only add a comand to the current focus'' s = (e, s1)"
      by (metis prod.collapse)
    from coherent_throwInconsistentState[OF c t] have "coherent s1" .
    with a Some False t show ?thesis by (simp add: addCommand_try_def)
  next
    case True
    let ?req = "CoqAddCommand (cmd_text c) (version s) (stateId (store s parent)) v"
    let ?s1 = "requested [?req] s"
    have aw: "await ?req s = (coqtop_replies s (coqtop_sent s), ?s1)"
      by (simp add: await_def requested_def emit_def)
    have c1: "coherent ?s1" using c by (simp add: requested_def)
    show ?thesis
    proof (cases "add_reply (coqtop_replies s (coqtop_sent s))")
      case (AddValue n u)
      with a Some True aw have "addCommand_value parent c n u ?s1 = (r, s')"
        by (simp add: addCommand_try_def)
      with c1 show ?thesis by (rule coherent_addCommand_value)
    next
      case (AddFailure f)
      with a Some True aw c1 show ?thesis by (auto simp: addCommand_try_def)
    next
      case (AddRejected str)
      with a Some True aw c1 show ?thesis by (auto simp: addCommand_try_def)
    qed
  qed
qed

lemma coherent_addCommand:
  "coherent s \<Longrightarrow> addCommand c v s = (r, s') \<Longrightarrow> coherent s'"
proof -
  assume c: "coherent s" and a: "addCommand c v s = (r, s')"
  obtain r1 s1 where t: "addCommand_try c v s = (r1, s1)" by (cases "addCommand_try c v s")
  from coherent_addCommand_try[OF c t] have c1: "coherent s1" .
  show ?thesis
  proof (cases r1)
    case (Inr res)
    with a t c1 show ?thesis by (simp add: addCommand_def)
  next
    case (Inl err)
    show ?thesis
    proof (cases "fallback_stateId err")
      case None
      with a t Inl c1 show ?thesis
        by (cases err) (auto simp: addCommand_def split: option.splits if_splits)
    next
      case (Some sid)
      then obtain f where f: "err = Failure f" by (cases err) auto
      obtain r2 s2 where g: "gotoErrorFallbackState sid s1 = (r2, s2)"
        by (cases "gotoErrorFallbackState sid s1")
      from coherent_gotoErrorFallbackState[OF c1 g] have c2: "coherent s2" .
      from a t Inl f Some g have "s' = s2"
        by (cases r2) (simp_all add: addCommand_def del: fallback_stateId.simps)
      with c2 show ?thesis by simp
    qed
  qed
qed

lemma coherent_iterate:
  "coherent s \<Longrightarrow> iterate fuel cond cs v e cf it nc s = Some (r, s') \<Longrightarrow> coherent s'"
proof (induction fuel arbitrary: cf it nc s)
  case 0
  then show ?case by simp
next
  case (Suc fuel)
  show ?case
  proof (cases nc)
    case None
    with Suc.prems show ?thesis by simp
  next
    case (Some command)
    show ?thesis
    proof (cases "cond command cf")
      case False
      with Suc.prems Some show ?thesis by simp
    next
      case True
      obtain r1 s1 where ad: "addCommand command v s = (r1, s1)" by (cases "addCommand command v s")
      from coherent_addCommand[OF Suc.prems(1) ad] have c1: "coherent s1" .
      show ?thesis
      proof (cases r1)
        case (Inl err)
        with Suc.prems Some True ad c1 show ?thesis by simp
      next
        case (Inr res)
        obtain sentence unfocused where res: "res = (sentence, unfocused)" by (cases res)
        with Suc.prems(2) Some True ad Inr have
          "iterate fuel cond cs v e (\<not> unfocused)
             (if unfocused then cs (getFocusedPosition s1) e else tl it)
             (case it of [] \<Rightarrow> None | c # cs \<Rightarrow> Some c) s1 = Some (r, s')"
          by simp
        with Suc.IH c1 show ?thesis by blast
      qed
    qed
  qed
qed

lemma coherent_iterateAdvanceFocus:
  "coherent s \<Longrightarrow> iterateAdvanceFocus fuel cond cs v e s = Some (r, s') \<Longrightarrow> coherent s'"
  by (auto simp: iterateAdvanceFocus_def Let_def dest: coherent_iterate)

lemma coherent_stepForward:
  "coherent s \<Longrightarrow> stepForward fuel cs v s = Some (r, s') \<Longrightarrow> coherent s'"
proof -
  assume c: "coherent s" and a: "stepForward fuel cs v s = Some (r, s')"
  obtain r1 s1 where vs: "validateState True s = (r1, s1)" by (cases "validateState True s")
  from coherent_validateState[OF c vs] have c1: "coherent s1" .
  show ?thesis
  proof (cases r1)
    case (Inl e)
    with a vs c1 show ?thesis by (simp add: stepForward_def)
  next
    case (Inr b)
    with a vs have "iterateAdvanceFocus fuel
             (\<lambda>command contiguousFocus. positionIsEqual (range_start (cmd_range command)) (getFocusedPosition s1))
             cs v None s1 = Some (r, s')"
      by (simp add: stepForward_def Let_def)
    with c1 show ?thesis by (rule coherent_iterateAdvanceFocus)
  qed
qed

lemma coherent_interpretToPoint:
  "coherent s \<Longrightarrow> interpretToPoint fuel pos cs s = Some (r, s') \<Longrightarrow> coherent s'"
proof -
  assume c: "coherent s" and a: "interpretToPoint fuel pos cs s = Some (r, s')"
  obtain r1 s1 where vs: "validateState True s = (r1, s1)" by (cases "validateState True s")
  from coherent_validateState[OF c vs] have c1: "coherent s1" .
  show ?thesis
  proof (cases r1)
    case (Inl e)
    with a vs c1 show ?thesis by (simp add: interpretToPoint_def)
  next
    case (Inr b)
    let ?it = "iterateAdvanceFocus fuel
                  (\<lambda>command contiguousFocus. positionIsAfterOrEqual pos (range_end (cmd_range command)))
                  cs True (Some pos) s1"
    show ?thesis
    proof (cases ?it)
      case None
      with a vs Inr show ?thesis by (simp add: interpretToPoint_def)
    next
      case (Some res)
      obtain r2 s2 where res: "res = (r2, s2)" by (cases res)
      with Some c1 have c2: "coherent s2" using coherent_iterateAdvanceFocus by blast
      show ?thesis
      proof (cases r2)
        case (Inl e)
        with a vs Inr Some res c2 show ?thesis by (simp add: interpretToPoint_def)
      next
        case (Inr u)
        show ?thesis
        proof (cases "positionIsBefore pos (getFocusedPosition s2)")
          case False
          with a vs \<open>r1 = Inr b\<close> Some res Inr c2 show ?thesis by (simp add: interpretToPoint_def)
        next
          case True
          show ?thesis
          proof (cases "getParentSentence pos s2")
            case (Inl e)
            with a vs \<open>r1 = Inr b\<close> Some res Inr c2 True show ?thesis
              by (simp add: interpretToPoint_def)
          next
            case (Inr target)
            with a vs \<open>r1 = Inr b\<close> Some res \<open>r2 = Inr u\<close> True
            have "focusSentence target s2 = (r, s')" by (simp add: interpretToPoint_def)
            with c2 show ?thesis by (rule coherent_focusSentence)
          qed
        qed
      qed
    qed
  qed
qed

lemma coherent_doQuery:
  "coherent s \<Longrightarrow> doQuery q pos s = (r, s') \<Longrightarrow> coherent s'"
proof -
  assume c: "coherent s" and a: "doQuery q pos s = (r, s')"
  obtain r1 s1 where vs: "validateState True s = (r1, s1)" by (cases "validateState True s")
  from coherent_validateState[OF c vs] have c1: "coherent s1" .
  with a vs show ?thesis
    by (cases r1) (auto simp: doQuery_def await_def emit_def split: option.splits sum.splits)
qed

lemma coherent_visit:
  "coherent s \<Longrightarrow> visit atc cs sent s = (r, s') \<Longrightarrow> coherent s'"
proof -
  assume c: "coherent s" and a: "visit atc cs sent s = (r, s')"
  obtain inv rng where i: "atc cs (store s sent) = (inv, rng)" by (cases "atc cs (store s sent)")
  let ?s1 = "s\<lparr> store := (store s)(sent := (store s sent)\<lparr> textRange := rng \<rparr>) \<rparr>"
  have c1: "coherent ?s1" using c by simp
  show ?thesis
  proof (cases inv)
    case True
    with a i have "cancelSentence (Some sent) ?s1 = (r, s')" by (simp add: visit_def)
    with c1 show ?thesis by (rule coherent_cancelSentence)
  next
    case False
    with a i c1 show ?thesis by (auto simp: visit_def)
  qed
qed

lemma coherent_walk:
  "coherent s \<Longrightarrow> walk atc cs sents s = (r, s') \<Longrightarrow> coherent s'"
proof (induction sents arbitrary: cs s)
  case Nil
  then show ?case by simp
next
  case (Cons sent sents)
  let ?rem = "remainingChanges sent cs s"
  show ?case
  proof (cases "?rem = []")
    case True
    with Cons.prems show ?thesis by simp
  next
    case False
    obtain r1 s1 where v: "visit atc ?rem sent s = (r1, s1)" by (cases "visit atc ?rem sent s")
    from coherent_visit[OF Cons.prems(1) v] have c1: "coherent s1" .
    show ?thesis
    proof (cases r1)
      case (Inl e)
      with Cons.prems False v c1 show ?thesis by simp
    next
      case (Inr u)
      with Cons.prems False v have "walk atc ?rem sents s1 = (r, s')" by simp
      with Cons.IH c1 show ?thesis by blast
    qed
  qed
qed

lemma coherent_applyChanges:
  "coherent s \<Longrightarrow> applyChanges atc cs v s = (r, s') \<Longrightarrow> coherent s'"
proof -
  assume c: "coherent s" and a: "applyChanges atc cs v s = (r, s')"
  show ?thesis
  proof (cases "\<not> running s \<or> cs = []")
    case True
    with a c show ?thesis by (auto simp: applyChanges_def)
  next
    case False
    obtain r1 s1 where w:
      "(case lastSentence s of None \<Rightarrow> (Inl TypeError, s)
        | Some l \<Rightarrow> walk atc (sortChanges cs) (sentence_ancestors l s) s) = (r1, s1)"
      by (metis prod.collapse)
    have c1: "coherent s1"
    proof (cases "lastSentence s")
      case None
      with w c show ?thesis by simp
    next
      case (Some l)
      with w c show ?thesis using coherent_walk by simp
    qed
    show ?thesis
    proof (cases r1)
      case (Inr u)
      with a False w c1 show ?thesis by (auto simp: applyChanges_def)
    next
      case (Inl err)
      obtain r2 s2 where h: "handleInconsistentState err s1 = (r2, s2)"
        by (cases "handleInconsistentState err s1")
      from coherent_handleInconsistentState[OF c1 h] have "coherent s2" .
      with a False w Inl h show ?thesis by (cases r2) (auto simp: applyChanges_def)
    qed
  qed
qed

lemma reachable_coherent: "reachable s \<Longrightarrow> coherent s"
proof (induction rule: reachable.induct)
  case (constructed replies)
  show ?case by (rule coherent_new)
next
  case (disposed s)
  show ?case by (rule coherent_dispose)
next
  case (stopped s)
  then show ?case by (simp add: coherent_shutdown)
next
  case (interrupted s)
  then show ?case by (simp add: coherent_interrupt)
next
  case (stepped s fuel commandSequence verbose r s')
  then show ?case using coherent_stepForward by blast
next
  case (stepped_back s r s')
  then show ?case using coherent_stepBackward by blast
next
  case (changed s applyTextChanges changes newVersion r s')
  then show ?case using coherent_applyChanges by blast
next
  case (interpreted s fuel pos commandSequence r s')
  then show ?case using coherent_interpretToPoint by blast
next
  case (queried s query qpos q s')
  then show ?case using coherent_doQuery by blast
next
  case (status_update s sid route st worker r s')
  then show ?case using coherent_onCoqStateStatusUpdate by blast
next
  case (closed s err r s')
  then show ?case using coherent_onCoqClosed by blast
qed

lemma reachable_running_callbacks: "reachable s \<Longrightarrow> running s \<Longrightarrow> callbacks s"
  using reachable_coherent by (auto simp: coherent_def)

lemma reachable_disposed_silent: "reachable s \<Longrightarrow> \<not> running s \<Longrightarrow> \<not> callbacks s"
  using reachable_coherent by (auto simp: coherent_def)

section \<open>A state machine without a root is blank\<close>

text \<open>
  No operation takes the root away once \<^verbatim>\<open>initialize\<close> has set it.
\<close>

lemma await_rooted: "await e s = (rep, s') \<Longrightarrow> root s' = root s"
  by (auto simp: await_def emit_def)

lemma dispose_rooted: "root (dispose s) = root s"
  by (simp add: dispose_def emit_def)

lemma initialize_rooted: "initialize sid s = (r, s') \<Longrightarrow> root s \<noteq> None \<Longrightarrow> root s' \<noteq> None"
  by (auto simp: initialize_def Let_def split: if_splits)

lemma validateState_rooted: "validateState b s = (r, s') \<Longrightarrow> root s \<noteq> None \<Longrightarrow> root s' \<noteq> None"
  by (auto simp: validateState_def await_def emit_def initialize_def split: if_splits prod.splits sum.splits)

lemma handleInconsistentState_rooted:
  "handleInconsistentState err s = (r, s') \<Longrightarrow> root s' = root s"
  by (auto simp: handleInconsistentState_def callback_def dispose_def emit_def split: sum.splits if_splits)

lemma throwInconsistentState_rooted:
  "throwInconsistentState msg s = (r, s') \<Longrightarrow> root s' = root s"
  by (auto simp: throwInconsistentState_def callback_def dispose_def emit_def split: sum.splits if_splits)

lemma deleteSentence_rooted: "deleteSentence x s = (r, s') \<Longrightarrow> root s' = root s"
  by (auto simp: deleteSentence_def callback_def emit_def split: sum.splits option.splits if_splits)

lemma deleteSentences_rooted: "deleteSentences xs s = (r, s') \<Longrightarrow> root s' = root s"
proof (induction xs arbitrary: s)
  case Nil
  then show ?case by simp
next
  case (Cons x xs)
  then show ?case
    by (auto split: prod.splits sum.splits dest: deleteSentence_rooted)
qed

lemma rewindTo_rooted: "rewindTo n s = (r, s') \<Longrightarrow> root s \<noteq> None \<Longrightarrow> root s' \<noteq> None"
  by (auto simp: rewindTo_def split: option.splits prod.splits sum.splits dest: deleteSentences_rooted)

lemma rewindRange_rooted: "rewindRange a e s = (r, s') \<Longrightarrow> root s \<noteq> None \<Longrightarrow> root s' \<noteq> None"
  by (auto simp: rewindRange_def split: option.splits prod.splits dest!: deleteSentences_rooted)

lemma gotoErrorFallbackState_try_rooted:
  "gotoErrorFallbackState_try sid s = (r, s') \<Longrightarrow> root s \<noteq> None \<Longrightarrow> root s' \<noteq> None"
  by (auto simp: gotoErrorFallbackState_try_def split: option.splits prod.splits EditAtResult.splits
      dest!: await_rooted dest: rewindTo_rooted)

lemma gotoErrorFallbackState_rooted:
  "gotoErrorFallbackState sid s = (r, s') \<Longrightarrow> root s \<noteq> None \<Longrightarrow> root s' \<noteq> None"
  by (auto simp: gotoErrorFallbackState_def split: prod.splits sum.splits
      dest: gotoErrorFallbackState_try_rooted dest!: handleInconsistentState_rooted)

lemma focusSentence_try_rooted:
  "focusSentence_try x s = (r, s') \<Longrightarrow> root s \<noteq> None \<Longrightarrow> root s' \<noteq> None"
  by (auto simp: focusSentence_try_def split: option.splits prod.splits EditAtResult.splits sum.splits
      dest!: await_rooted dest: rewindTo_rooted rewindRange_rooted)

lemma focusSentence_rooted:
  "focusSentence x s = (r, s') \<Longrightarrow> root s \<noteq> None \<Longrightarrow> root s' \<noteq> None"
  by (auto simp: focusSentence_def split: if_splits prod.splits sum.splits option.splits
      dest: focusSentence_try_rooted gotoErrorFallbackState_rooted)

lemma cancelSentence_rooted:
  "cancelSentence x s = (r, s') \<Longrightarrow> root s \<noteq> None \<Longrightarrow> root s' \<noteq> None"
  by (auto simp: cancelSentence_def split: option.splits dest: focusSentence_rooted)

lemma stepBackward_rooted:
  "stepBackward s = (r, s') \<Longrightarrow> root s \<noteq> None \<Longrightarrow> root s' \<noteq> None"
  by (auto simp: stepBackward_def split: prod.splits sum.splits
      dest: cancelSentence_rooted validateState_rooted)

lemma applyFeedback_rooted: "applyFeedback fs s = (r, s') \<Longrightarrow> root s' = root s"
proof (induction fs arbitrary: s)
  case Nil
  then show ?case by simp
next
  case (Cons f fs)
  then show ?case
    by (auto simp: Let_def updateStatus_def callback_def emit_def
        split: option.splits sum.splits if_splits)
qed

lemma applyBufferedFeedback_rooted: "applyBufferedFeedback s = (r, s') \<Longrightarrow> root s' = root s"
  by (auto simp: applyBufferedFeedback_def split: option.splits prod.splits sum.splits
      dest: applyFeedback_rooted)

lemma onCoqStateStatusUpdate_rooted:
  "onCoqStateStatusUpdate sid route st w s = (r, s') \<Longrightarrow> root s' = root s"
  by (auto simp: onCoqStateStatusUpdate_def Let_def updateStatus_def callback_def emit_def
      split: option.splits sum.splits if_splits)

lemma onCoqClosed_rooted: "onCoqClosed err s = (r, s') \<Longrightarrow> root s' = root s"
  by (auto simp: onCoqClosed_def Let_def callback_def dispose_def emit_def split: if_splits sum.splits)

lemma addCommand_value_rooted:
  "addCommand_value p c n u s = (r, s') \<Longrightarrow> root s \<noteq> None \<Longrightarrow> root s' \<noteq> None"
  by (auto simp: addCommand_value_def Sentence_add_def Let_def updateStatus_def
      split: option.splits prod.splits sum.splits if_splits dest!: applyBufferedFeedback_rooted)

lemma addCommand_try_rooted:
  "addCommand_try c v s = (r, s') \<Longrightarrow> root s \<noteq> None \<Longrightarrow> root s' \<noteq> None"
  by (auto simp: addCommand_try_def
      split: option.splits prod.splits sum.splits if_splits AddResult.splits
      dest: addCommand_value_rooted dest!: await_rooted throwInconsistentState_rooted)

lemma addCommand_rooted:
  "addCommand c v s = (r, s') \<Longrightarrow> root s \<noteq> None \<Longrightarrow> root s' \<noteq> None"
  by (auto simp: addCommand_def
      split: option.splits prod.splits sum.splits error.splits
      dest: addCommand_try_rooted gotoErrorFallbackState_rooted)

lemma iterate_rooted:
  "iterate fuel cond cs v e cf it nc s = Some (r, s') \<Longrightarrow> root s \<noteq> None \<Longrightarrow> root s' \<noteq> None"
proof (induction fuel cond cs v e cf it nc s rule: iterate.induct)
  case (1 iterateCondition commandSequence verbose endp contiguousFocus it nextCommand s)
  then show ?case by simp
next
  case (2 fuel iterateCondition commandSequence verbose endp contiguousFocus it s)
  then show ?case by simp
next
  case (3 fuel iterateCondition commandSequence verbose endp contiguousFocus it command s)
  then show ?case
    by (auto split: if_splits prod.splits sum.splits dest: addCommand_rooted)
qed

lemma iterateAdvanceFocus_rooted:
  "iterateAdvanceFocus fuel cond cs v e s = Some (r, s') \<Longrightarrow> root s \<noteq> None \<Longrightarrow> root s' \<noteq> None"
  by (auto simp: iterateAdvanceFocus_def Let_def dest: iterate_rooted)

lemma stepForward_rooted:
  "stepForward fuel cs v s = Some (r, s') \<Longrightarrow> root s \<noteq> None \<Longrightarrow> root s' \<noteq> None"
  by (auto simp: stepForward_def Let_def split: prod.splits sum.splits
      dest: iterateAdvanceFocus_rooted validateState_rooted)

lemma interpretToPoint_rooted:
  "interpretToPoint fuel pos cs s = Some (r, s') \<Longrightarrow> root s \<noteq> None \<Longrightarrow> root s' \<noteq> None"
proof -
  assume a: "interpretToPoint fuel pos cs s = Some (r, s')" and b: "root s \<noteq> None"
  obtain r1 s1 where vs: "validateState True s = (r1, s1)" by (cases "validateState True s")
  from validateState_rooted[OF vs b] have b1: "root s1 \<noteq> None" .
  show ?thesis
  proof (cases r1)
    case (Inl e)
    with a vs b1 show ?thesis by (simp add: interpretToPoint_def)
  next
    case (Inr ok)
    let ?it = "iterateAdvanceFocus fuel
                  (\<lambda>command contiguousFocus. positionIsAfterOrEqual pos (range_end (cmd_range command)))
                  cs True (Some pos) s1"
    show ?thesis
    proof (cases ?it)
      case None
      with a vs Inr show ?thesis by (simp add: interpretToPoint_def)
    next
      case (Some res)
      obtain r2 s2 where res: "res = (r2, s2)" by (cases res)
      with Some b1 have b2: "root s2 \<noteq> None" using iterateAdvanceFocus_rooted by blast
      show ?thesis
      proof (cases r2)
        case (Inl e)
        with a vs Inr Some res b2 show ?thesis by (simp add: interpretToPoint_def)
      next
        case (Inr u)
        show ?thesis
        proof (cases "positionIsBefore pos (getFocusedPosition s2)")
          case False
          with a vs \<open>r1 = Inr ok\<close> Some res Inr b2 show ?thesis by (simp add: interpretToPoint_def)
        next
          case True
          show ?thesis
          proof (cases "getParentSentence pos s2")
            case (Inl e)
            with a vs \<open>r1 = Inr ok\<close> Some res Inr b2 True show ?thesis
              by (simp add: interpretToPoint_def)
          next
            case (Inr target)
            with a vs \<open>r1 = Inr ok\<close> Some res \<open>r2 = Inr u\<close> True
            have "focusSentence target s2 = (r, s')" by (simp add: interpretToPoint_def)
            from focusSentence_rooted[OF this b2] show ?thesis .
          qed
        qed
      qed
    qed
  qed
qed

lemma doQuery_rooted:
  "doQuery q pos s = (r, s') \<Longrightarrow> root s \<noteq> None \<Longrightarrow> root s' \<noteq> None"
  by (auto simp: doQuery_def split: prod.splits sum.splits option.splits
      dest: validateState_rooted dest!: await_rooted)

lemma visit_rooted:
  "visit atc cs sent s = (r, s') \<Longrightarrow> root s \<noteq> None \<Longrightarrow> root s' \<noteq> None"
proof -
  assume a: "visit atc cs sent s = (r, s')" and b: "root s \<noteq> None"
  obtain inv rng where i: "atc cs (store s sent) = (inv, rng)" by (cases "atc cs (store s sent)")
  let ?s1 = "s\<lparr> store := (store s)(sent := (store s sent)\<lparr> textRange := rng \<rparr>) \<rparr>"
  show ?thesis
  proof (cases inv)
    case True
    with a i have "cancelSentence (Some sent) ?s1 = (r, s')" by (simp add: visit_def)
    from cancelSentence_rooted[OF this] b show ?thesis by simp
  next
    case False
    with a i b show ?thesis by (auto simp: visit_def)
  qed
qed

lemma walk_rooted:
  "walk atc cs sents s = (r, s') \<Longrightarrow> root s \<noteq> None \<Longrightarrow> root s' \<noteq> None"
proof (induction sents arbitrary: cs s)
  case Nil
  then show ?case by simp
next
  case (Cons sent sents)
  let ?rem = "remainingChanges sent cs s"
  show ?case
  proof (cases "?rem = []")
    case True
    with Cons.prems show ?thesis by simp
  next
    case False
    obtain r1 s1 where v: "visit atc ?rem sent s = (r1, s1)" by (cases "visit atc ?rem sent s")
    from visit_rooted[OF v Cons.prems(2)] have r1: "root s1 \<noteq> None" .
    show ?thesis
    proof (cases r1)
      case (Inl e)
      with Cons.prems False v have "s' = s1" by simp
      with r1 show ?thesis by simp
    next
      case (Inr u)
      with Cons.prems False v have "walk atc ?rem sents s1 = (r, s')" by simp
      with Cons.IH r1 show ?thesis by blast
    qed
  qed
qed

lemma applyChanges_rooted:
  "applyChanges atc cs v s = (r, s') \<Longrightarrow> root s \<noteq> None \<Longrightarrow> root s' \<noteq> None"
  by (auto simp: applyChanges_def split: if_splits prod.splits sum.splits option.splits
      dest: walk_rooted dest!: handleInconsistentState_rooted)

lemma shutdown_rooted: "root (shutdown s) = root s"
  by (auto simp: shutdown_def dispose_def await_def emit_def)

lemma interrupt_rooted: "root (interrupt s) = root s"
  by (auto simp: interrupt_def await_def emit_def)

text \<open>
  From a blank state every public operation and every event of the backend leads to a blank
  state or to a state with a root. So in every state reached from the constructor that has
  no root there is no focused sentence, no last sentence and no index.
\<close>

lemma blank_dispose: "blank s \<Longrightarrow> blank (dispose s)"
  by (simp add: blank_def dispose_def emit_def)

lemma blank_trace [simp]: "blank (s\<lparr> trace := t \<rparr>) = blank s"
  by (simp add: blank_def)

lemma blank_sent [simp]: "blank (s\<lparr> coqtop_sent := n \<rparr>) = blank s"
  by (simp add: blank_def)

lemma blank_version [simp]: "blank (s\<lparr> version := n \<rparr>) = blank s"
  by (simp add: blank_def)

lemma blank_validateState:
  "blank s \<Longrightarrow> validateState b s = (r, s') \<Longrightarrow> s' = s \<or> root s' \<noteq> None"
  by (auto simp: validateState_def await_def emit_def initialize_def Let_def
      split: if_splits prod.splits sum.splits)

lemma blank_handleInconsistentState:
  "blank s \<Longrightarrow> handleInconsistentState err s = (r, s') \<Longrightarrow> blank s'"
  by (auto simp: handleInconsistentState_def callback_def emit_def blank_dispose split: if_splits)

lemma blank_addCommand: "blank s \<Longrightarrow> addCommand c v s = (r, s') \<Longrightarrow> s' = s"
  by (simp add: blank_def addCommand_def addCommand_try_def)

lemma blank_iterate:
  "blank s \<Longrightarrow> iterate fuel cond cs v e cf it nc s = Some (r, s') \<Longrightarrow> s' = s"
proof (cases fuel)
  case 0
  assume "iterate fuel cond cs v e cf it nc s = Some (r, s')"
  with 0 show ?thesis by simp
next
  case (Suc n)
  assume b: "blank s" and a: "iterate fuel cond cs v e cf it nc s = Some (r, s')"
  show ?thesis
  proof (cases nc)
    case None
    with a Suc show ?thesis by simp
  next
    case (Some command)
    from b have "addCommand command v s = (Inl TypeError, s)"
      by (simp add: blank_def addCommand_def addCommand_try_def)
    with a Suc Some show ?thesis by (auto split: if_splits)
  qed
qed

lemma blank_cancelSentence: "blank s \<Longrightarrow> cancelSentence x s = (r, s') \<Longrightarrow> s' = s"
  by (cases x) (auto simp: blank_def cancelSentence_def sentence_parent_def focusSentence_def)

lemma blank_stepForward:
  "blank s \<Longrightarrow> stepForward fuel cs v s = Some (r, s') \<Longrightarrow> blank s' \<or> root s' \<noteq> None"
proof -
  assume b: "blank s" and a: "stepForward fuel cs v s = Some (r, s')"
  obtain r1 s1 where vs: "validateState True s = (r1, s1)" by (cases "validateState True s")
  from blank_validateState[OF b vs] have d: "s1 = s \<or> root s1 \<noteq> None" .
  show ?thesis
  proof (cases r1)
    case (Inl e)
    with a vs d b show ?thesis by (auto simp: stepForward_def)
  next
    case (Inr ok)
    with a vs have it: "iterateAdvanceFocus fuel
             (\<lambda>command contiguousFocus. positionIsEqual (range_start (cmd_range command)) (getFocusedPosition s1))
             cs v None s1 = Some (r, s')"
      by (simp add: stepForward_def Let_def)
    from d show ?thesis
    proof
      assume "s1 = s"
      with it b have "s' = s" by (auto simp: iterateAdvanceFocus_def Let_def dest: blank_iterate)
      with b show ?thesis by simp
    next
      assume "root s1 \<noteq> None"
      with it show ?thesis using iterateAdvanceFocus_rooted by blast
    qed
  qed
qed

lemma blank_stepBackward:
  "blank s \<Longrightarrow> stepBackward s = (r, s') \<Longrightarrow> blank s' \<or> root s' \<noteq> None"
proof -
  assume b: "blank s" and a: "stepBackward s = (r, s')"
  obtain r1 s1 where vs: "validateState True s = (r1, s1)" by (cases "validateState True s")
  from blank_validateState[OF b vs] have d: "s1 = s \<or> root s1 \<noteq> None" .
  show ?thesis
  proof (cases r1)
    case (Inl e)
    with a vs d b show ?thesis by (auto simp: stepBackward_def)
  next
    case (Inr ok)
    with a vs have c: "cancelSentence (focusedSentence s1) s1 = (r, s')" by (simp add: stepBackward_def)
    from d show ?thesis
    proof
      assume "s1 = s"
      with c b have "s' = s" using blank_cancelSentence by blast
      with b show ?thesis by simp
    next
      assume "root s1 \<noteq> None"
      with c show ?thesis using cancelSentence_rooted by blast
    qed
  qed
qed

lemma blank_interpretToPoint:
  "blank s \<Longrightarrow> interpretToPoint fuel pos cs s = Some (r, s') \<Longrightarrow> blank s' \<or> root s' \<noteq> None"
proof -
  assume b: "blank s" and a: "interpretToPoint fuel pos cs s = Some (r, s')"
  obtain r1 s1 where vs: "validateState True s = (r1, s1)" by (cases "validateState True s")
  from blank_validateState[OF b vs] have "s1 = s \<or> root s1 \<noteq> None" .
  then show ?thesis
  proof
    assume r1: "root s1 \<noteq> None"
    show ?thesis
    proof (cases r1)
      case (Inl e)
      with a vs r1 show ?thesis by (simp add: interpretToPoint_def)
    next
      case (Inr ok)
      have "root s' \<noteq> None"
      proof (rule interpretToPoint_rooted)
        show "interpretToPoint fuel pos cs s1 = Some (r, s')"
        proof -
          from vs Inr have "running s1 \<and> coqtop_isRunning s1"
            by (auto simp: validateState_def await_def emit_def initialize_def Let_def
                split: if_splits prod.splits sum.splits)
          then have "validateState True s1 = (Inr True, s1)" by (simp add: validateState_def)
          with a vs Inr show ?thesis by (simp add: interpretToPoint_def)
        qed
      qed (rule r1)
      then show ?thesis by simp
    qed
  next
    assume eq: "s1 = s"
    show ?thesis
    proof (cases r1)
      case (Inl e)
      with a vs eq b show ?thesis by (simp add: interpretToPoint_def)
    next
      case (Inr ok)
      let ?it = "iterateAdvanceFocus fuel
                  (\<lambda>command contiguousFocus. positionIsAfterOrEqual pos (range_end (cmd_range command)))
                  cs True (Some pos) s"
      show ?thesis
      proof (cases ?it)
        case None
        with a vs Inr eq show ?thesis by (simp add: interpretToPoint_def)
      next
        case (Some res)
        obtain r2 s2 where res: "res = (r2, s2)" by (cases res)
        with Some b have s2: "s2 = s" by (auto simp: iterateAdvanceFocus_def Let_def dest: blank_iterate)
        from b have gp: "getParentSentence pos s = Inl TypeError" by (simp add: blank_def getParentSentence_def)
        from a vs Inr eq Some res s2 gp have "s' = s"
          by (cases r2) (auto simp: interpretToPoint_def split: if_splits)
        with b show ?thesis by simp
      qed
    qed
  qed
qed

lemma blank_doQuery:
  "blank s \<Longrightarrow> doQuery q pos s = (r, s') \<Longrightarrow> blank s' \<or> root s' \<noteq> None"
proof -
  assume b: "blank s" and a: "doQuery q pos s = (r, s')"
  obtain r1 s1 where vs: "validateState True s = (r1, s1)" by (cases "validateState True s")
  from blank_validateState[OF b vs] have d: "s1 = s \<or> root s1 \<noteq> None" .
  have "root s' = root s1 \<and> focusedSentence s' = focusedSentence s1
        \<and> lastSentence s' = lastSentence s1 \<and> sentences s' = sentences s1"
    using a vs by (cases r1) (auto simp: doQuery_def await_def emit_def split: option.splits sum.splits)
  with d b show ?thesis by (auto simp: blank_def)
qed

lemma blank_applyChanges:
  "blank s \<Longrightarrow> applyChanges atc cs v s = (r, s') \<Longrightarrow> blank s'"
  by (auto simp: applyChanges_def blank_def handleInconsistentState_def callback_def dispose_def emit_def
      split: if_splits)

lemma blank_onCoqStateStatusUpdate:
  "blank s \<Longrightarrow> onCoqStateStatusUpdate sid route st w s = (r, s') \<Longrightarrow> s' = s"
  by (simp add: blank_def onCoqStateStatusUpdate_def)

lemma blank_onCoqClosed:
  "blank s \<Longrightarrow> onCoqClosed err s = (r, s') \<Longrightarrow> blank s'"
  by (auto simp: onCoqClosed_def Let_def callback_def blank_dispose emit_def split: if_splits)

lemma blank_shutdown: "blank s \<Longrightarrow> blank (shutdown s)"
  by (simp add: shutdown_def blank_def dispose_def await_def emit_def)

lemma blank_interrupt: "blank s \<Longrightarrow> blank (interrupt s)"
  by (simp add: interrupt_def blank_def await_def emit_def)

lemma reachable_blank_or_rooted: "reachable s \<Longrightarrow> blank s \<or> root s \<noteq> None"
proof (induction rule: reachable.induct)
  case (constructed replies)
  show ?case by (simp add: blank_def new_STM_def)
next
  case (disposed s)
  then show ?case using blank_dispose dispose_rooted by auto
next
  case (stopped s)
  then show ?case using blank_shutdown shutdown_rooted by auto
next
  case (interrupted s)
  then show ?case using blank_interrupt interrupt_rooted by auto
next
  case (stepped s fuel commandSequence verbose r s')
  then show ?case using blank_stepForward stepForward_rooted by blast
next
  case (stepped_back s r s')
  then show ?case using blank_stepBackward stepBackward_rooted by blast
next
  case (changed s applyTextChanges changes newVersion r s')
  then show ?case using blank_applyChanges applyChanges_rooted by blast
next
  case (interpreted s fuel pos commandSequence r s')
  then show ?case using blank_interpretToPoint interpretToPoint_rooted by blast
next
  case (queried s query qpos q s')
  then show ?case using blank_doQuery doQuery_rooted by blast
next
  case (status_update s sid route st worker r s')
  then show ?case using blank_onCoqStateStatusUpdate onCoqStateStatusUpdate_rooted by metis
next
  case (closed s err r s')
  then show ?case using blank_onCoqClosed onCoqClosed_rooted by metis
qed

section \<open>The linear advance is reached by stepping forward\<close>

text \<open>
  Two calls of \<^verbatim>\<open>stepForward\<close> on a new state machine, with the parser of the script
  \<^verbatim>\<open>A.B.\<close>, give the states of the linear advance, whatever the backend answers later.
\<close>

lemma stm_A_stepped:
  assumes "reset_reply (replies 0) = 1" "add_reply (replies 1) = AddValue 2 None"
  shows "stepForward 2 script_AB False (new_STM replies) = Some (Inr (), stm_A\<lparr> coqtop_replies := replies \<rparr>)"
  using assms
  by (simp add: stepForward_def iterateAdvanceFocus_def script_AB_def getFocusedPosition_def
      stm_A_def validateState_def new_STM_def await_def emit_def
      initialize_def Let_def addCommand_def addCommand_try_def addCommand_value_def Sentence_add_def
      applyBufferedFeedback_def updateStatus_def transition_def positionIsEqual_def positionIsAfterOrEqual_def
      cmd_A_def cmd_B_def sentence_A_def newRoot_def fun_upd_twist eval_nat_numeral)

lemma stm_AB_stepped:
  assumes "add_reply (replies 2) = AddValue 3 None"
  shows "stepForward 2 script_AB False (stm_A\<lparr> coqtop_replies := replies \<rparr>)
           = Some (Inr (), stm_AB\<lparr> coqtop_replies := replies \<rparr>)"
  using assms
  by (simp add: stepForward_def iterateAdvanceFocus_def script_AB_def getFocusedPosition_def
      stm_A_def stm_AB_def validateState_def await_def emit_def
      Let_def addCommand_def addCommand_try_def addCommand_value_def Sentence_add_def
      applyBufferedFeedback_def updateStatus_def transition_def positionIsEqual_def positionIsAfterOrEqual_def
      cmd_A_def cmd_B_def sentence_A_def sentence_B_def newRoot_def fun_upd_twist eval_nat_numeral)

lemma stm_A_reachable:
  assumes "reset_reply (replies 0) = 1" "add_reply (replies 1) = AddValue 2 None"
  shows "reachable (stm_A\<lparr> coqtop_replies := replies \<rparr>)"
  using reachable.stepped[OF reachable.constructed stm_A_stepped[OF assms]] .

lemma stm_AB_reachable: "reachable stm_AB"
proof -
  have a: "reachable (stm_A\<lparr> coqtop_replies := linear_backend \<rparr>)"
    by (rule stm_A_reachable) (simp_all add: linear_backend_def)
  have "stepForward 2 script_AB False (stm_A\<lparr> coqtop_replies := linear_backend \<rparr>)
           = Some (Inr (), stm_AB\<lparr> coqtop_replies := linear_backend \<rparr>)"
    by (rule stm_AB_stepped) (simp add: linear_backend_def)
  from reachable.stepped[OF a this] show ?thesis by (simp add: stm_AB_def)
qed

section \<open>C10: the focused position\<close>

text \<open>
  Claim C10, as amended. In every state reached from the constructor: while the state
  machine has no root, before its lazy initialization, it has no focused sentence and
  \<^verbatim>\<open>getFocusedPosition\<close> returns the position (0, 0); in every state without a focused
  sentence it returns (0, 0) and does not fail, and that is so right after \<^verbatim>\<open>dispose\<close>,
  initialized or not; in every state with a focused sentence it returns the end of that
  sentence's range; and a successful \<^verbatim>\<open>initialize\<close> leaves a focused sentence, the root, whose
  range ends at (0, 0).
\<close>

theorem getFocusedPosition_spec:
  assumes "reachable s"
  shows "(root s = None \<longrightarrow> focusedSentence s = None \<and> getFocusedPosition s = Position 0 0)
   \<and> (focusedSentence s = None \<longrightarrow> getFocusedPosition s = Position 0 0)
   \<and> (\<forall>r. focusedSentence s = Some r \<longrightarrow> getFocusedPosition s = range_end (textRange (store s r)))
   \<and> getFocusedPosition (dispose s) = Position 0 0
   \<and> getFocusedPosition (new_STM replies) = Position 0 0
   \<and> (\<forall>rootStateId s'. initialize rootStateId s = (Inr (), s') \<longrightarrow>
         focusedSentence s' \<noteq> None \<and> getFocusedPosition s' = Position 0 0)"
proof -
  from reachable_blank_or_rooted[OF assms]
  have a: "root s = None \<longrightarrow> focusedSentence s = None \<and> getFocusedPosition s = Position 0 0"
    by (auto simp: blank_def getFocusedPosition_def)
  have b: "(focusedSentence s = None \<longrightarrow> getFocusedPosition s = Position 0 0)
   \<and> (\<forall>r. focusedSentence s = Some r \<longrightarrow> getFocusedPosition s = range_end (textRange (store s r)))
   \<and> getFocusedPosition (dispose s) = Position 0 0
   \<and> getFocusedPosition (new_STM replies) = Position 0 0
   \<and> (\<forall>rootStateId s'. initialize rootStateId s = (Inr (), s') \<longrightarrow>
         focusedSentence s' \<noteq> None \<and> getFocusedPosition s' = Position 0 0)"
    by (auto simp: getFocusedPosition_def new_STM_def initialize_def Let_def newRoot_def dispose_def emit_def
        split: if_splits)
  from a b show ?thesis by simp
qed

theorem getFocusedPosition_witness:
  "reachable stm_AB \<and> focusedSentence stm_AB = Some 2 \<and> getFocusedPosition stm_AB = Position 0 4
   \<and> getFocusedPosition (dispose stm_AB) = Position 0 0
   \<and> reachable (new_STM linear_backend) \<and> root (new_STM linear_backend) = None
   \<and> getFocusedPosition (new_STM linear_backend) = Position 0 0
   \<and> fst (initialize 1 (new_STM linear_backend)) = Inr ()
   \<and> focusedSentence (snd (initialize 1 (new_STM linear_backend))) = Some 0
   \<and> getFocusedPosition (snd (initialize 1 (new_STM linear_backend))) = Position 0 0"
proof -
  have a: "focusedSentence stm_AB = Some 2" by (simp add: stm_AB_def)
  have n: "reachable (new_STM linear_backend)" by (rule reachable.constructed)
  have rn: "root (new_STM linear_backend) = None" by (simp add: new_STM_def)
  note t = getFocusedPosition_spec[OF stm_AB_reachable, of linear_backend]
  note u = getFocusedPosition_spec[OF n, of linear_backend]
  from t a have "getFocusedPosition stm_AB = range_end (textRange (store stm_AB 2))"
    and d: "getFocusedPosition (dispose stm_AB) = Position 0 0" by blast+
  then have p: "getFocusedPosition stm_AB = Position 0 4" by (simp add: stm_AB_def sentence_B_def)
  from u rn have q: "getFocusedPosition (new_STM linear_backend) = Position 0 0" by blast
  have i: "fst (initialize 1 (new_STM linear_backend)) = Inr ()"
    and f: "focusedSentence (snd (initialize 1 (new_STM linear_backend))) = Some 0"
    by (simp_all add: initialize_def new_STM_def Let_def)
  from i have "initialize 1 (new_STM linear_backend) = (Inr (), snd (initialize 1 (new_STM linear_backend)))"
    by (metis prod.collapse)
  with u have g: "getFocusedPosition (snd (initialize 1 (new_STM linear_backend))) = Position 0 0"
    by blast
  show ?thesis using stm_AB_reachable a p d n rn q i f g by (intro conjI)
qed

text \<open>
  Claim C10 as stated fails for the initialized states that have no focused sentence.
  After the linear advance and \<^verbatim>\<open>dispose\<close> the root is still there, the focus is undefined
  and the position is (0, 0). And when the backend answers the add of \<^verbatim>\<open>B.\<close> with the
  unfocused state 9, which is not indexed, \<^verbatim>\<open>stepForward\<close> leaves the running state machine
  with its three live sentences and without a focus, at the position (0, 0).
\<close>

theorem getFocusedPosition_without_focus:
  "reachable (dispose stm_AB) \<and> root (dispose stm_AB) \<noteq> None
   \<and> focusedSentence (dispose stm_AB) = None
   \<and> getFocusedPosition (dispose stm_AB) = Position 0 0
   \<and> (\<exists>s'. stepForward 2 script_AB False (stm_A\<lparr> coqtop_replies := unfocus_unknown_backend \<rparr>) = Some (Inr (), s')
          \<and> reachable s' \<and> running s' \<and> root s' \<noteq> None \<and> live s' = {0, 1, 2}
          \<and> focusedSentence s' = None \<and> getFocusedPosition s' = Position 0 0)"
proof -
  let ?s = "stm_A\<lparr> coqtop_replies := unfocus_unknown_backend \<rparr>"
  have r0: "reachable ?s" by (rule stm_A_reachable) (simp_all add: unfocus_unknown_backend_def)
  have cb: "callbacks ?s" and idx: "sentences ?s = Some [1 \<mapsto> 0, 2 \<mapsto> 1]"
    and buf: "bufferedFeedback ?s = Some []" and foc: "focusedSentence ?s = Some 1"
    and last: "lastSentence ?s = Some 1" and nr: "next_ref ?s = 2"
    and rt: "root ?s = Some (Node 0 [Node 1 []])" and run: "running ?s" and cr: "coqtop_isRunning ?s"
    by (simp_all add: stm_A_def)
  have lfresh: "1 \<noteq> next_ref ?s" by (simp add: nr)
  have adj: "positionIsEqual (range_end (textRange (store ?s 1))) (range_start (cmd_range cmd_B))"
    by (simp add: stm_A_def sentence_A_def cmd_B_def positionIsEqual_def)
  have rep: "add_reply (coqtop_replies ?s (coqtop_sent ?s)) = AddValue 3 (Some 9)"
    by (simp add: stm_A_def unfocus_unknown_backend_def)
  note ok = addCommand_ok[OF cb idx buf foc last lfresh adj rep refl refl, of False]
  have "\<exists>X. addCommand cmd_B False ?s = (Inr (2, True), X) \<and> focusedSentence X = None \<and> running X
           \<and> root X = Some (add_child 1 2 (Node 0 [Node 1 []]))"
    using run by (simp add: ok nr rt del: add_child.simps)
  then obtain X where ad: "addCommand cmd_B False ?s = (Inr (2, True), X)"
    and fX: "focusedSentence X = None" and runX: "running X"
    and rtX: "root X = Some (add_child 1 2 (Node 0 [Node 1 []]))" by blast
  have vs: "validateState True ?s = (Inr True, ?s)" using run cr by (simp add: validateState_def)
  have fp: "getFocusedPosition ?s = Position 0 2"
    by (simp add: getFocusedPosition_def stm_A_def sentence_A_def)
  have cond: "positionIsEqual (range_start (cmd_range cmd_B)) (Position 0 2)"
    by (simp add: cmd_B_def positionIsEqual_def)
  have st: "stepForward 2 script_AB False ?s = Some (Inr (), X)"
    unfolding stepForward_def vs using cond ad
    by (simp add: iterateAdvanceFocus_def fp script_AB_def Let_def eval_nat_numeral)
  from reachable.stepped[OF r0 st] have rX: "reachable X" .
  have lv: "set (preorder (add_child 1 2 (Node 0 [Node 1 []]))) = {0, 1, 2}" by auto
  have "root X \<noteq> None" by (simp add: rtX)
  moreover have "live X = {0, 1, 2}"
    using lv by (simp add: rtX live_def del: add_child.simps preorder.simps)
  moreover have "getFocusedPosition X = Position 0 0" using fX by (simp add: getFocusedPosition_def)
  ultimately have ex: "\<exists>s'. stepForward 2 script_AB False ?s = Some (Inr (), s')
          \<and> reachable s' \<and> running s' \<and> root s' \<noteq> None \<and> live s' = {0, 1, 2}
          \<and> focusedSentence s' = None \<and> getFocusedPosition s' = Position 0 0"
    using st rX fX runX by blast
  have "reachable (dispose stm_AB)" using stm_AB_reachable by (rule reachable.disposed)
  moreover have "root (dispose stm_AB) \<noteq> None" by (simp add: dispose_def emit_def stm_AB_def)
  moreover have "focusedSentence (dispose stm_AB) = None" by (simp add: dispose_def emit_def)
  moreover have "getFocusedPosition (dispose stm_AB) = Position 0 0"
    by (simp add: getFocusedPosition_def dispose_def emit_def)
  ultimately show ?thesis using ex by blast
qed

section \<open>C9: a disposed state machine\<close>




end
